theory Spec2Isabelle
  imports Main
begin

section \<open>The Edmonds-Karp program as a shallow embedding\<close>

text \<open>
  The program is \<^verbatim>\<open>src/edmonds_karp_algorithm.py\<close>: a class \<^verbatim>\<open>Graph\<close> (an
  adjacency structure of \<^verbatim>\<open>Edge\<close> objects, a source and a sink) with the methods
  \<^verbatim>\<open>add_edge\<close>, \<^verbatim>\<open>bfs\<close> and \<^verbatim>\<open>edmonds_karp\<close>, and a class \<^verbatim>\<open>Edge\<close>.

  Python's integers are unbounded, so every integer of the program is an \<^typ>\<open>int\<close>.
  Edge objects are mutable and shared (an edge is reachable from its node's adjacency
  list and from its partner's \<^verbatim>\<open>residual\<close> attribute), so they live in an explicit
  store: the list \<open>edges\<close> of the graph record, addressed by position. A reference to
  an edge is its address. Objects are never freed, and a new object gets the next free
  address.
\<close>

subsection \<open>Python lists\<close>

datatype error = IndexError

text \<open>
  \<^verbatim>\<open>xs[i]\<close>: a negative index counts from the end of the list, and an index outside
  \<open>[-len, len)\<close> raises \<^verbatim>\<open>IndexError\<close>. \<open>py_index\<close> is the position that is read or
  written, if there is one.
\<close>

definition py_index :: "'a list \<Rightarrow> int \<Rightarrow> nat option" where
  "py_index xs i =
     (let n = int (length xs) in
      if 0 \<le> i \<and> i < n then Some (nat i)
      else if - n \<le> i \<and> i < 0 then Some (nat (n + i))
      else None)"

definition py_get :: "'a list \<Rightarrow> int \<Rightarrow> 'a option" where
  "py_get xs i = (case py_index xs i of None \<Rightarrow> None | Some k \<Rightarrow> Some (xs ! k))"

definition py_set :: "'a list \<Rightarrow> int \<Rightarrow> 'a \<Rightarrow> 'a list option" where
  "py_set xs i v = (case py_index xs i of None \<Rightarrow> None | Some k \<Rightarrow> Some (xs[k := v]))"

subsection \<open>Edges and graphs\<close>

text \<open>
  \<^verbatim>\<open>class Edge\<close>: the attributes of \<^verbatim>\<open>Edge.__init__\<close>. \<open>residual\<close> is the address of
  the partner edge; \<^verbatim>\<open>__init__\<close> stores the placeholder 0 there, and \<^verbatim>\<open>add_edge\<close>
  overwrites it before the edge becomes reachable.
\<close>

record Edge =
  capacity :: int
  from_node :: int
  to_node :: int
  flow :: int
  residual :: nat

definition Edge_init :: "int \<Rightarrow> int \<Rightarrow> int \<Rightarrow> Edge" where
  "Edge_init cap from_n to_n =
     \<lparr>capacity = cap, from_node = from_n - 1, to_node = to_n - 1, flow = 0, residual = 0\<rparr>"

definition remaining_capacity :: "Edge \<Rightarrow> int" where
  "remaining_capacity e = capacity e - flow e"

text \<open>
  \<^verbatim>\<open>class Graph\<close>: \<open>graph\<close> is the list of adjacency lists (of edge addresses), and
  \<open>edges\<close> is the store of all edge objects.
\<close>

record Graph =
  num_nodes :: int
  source :: int
  sink :: int
  graph :: "nat list list"
  edges :: "Edge list"

text \<open>
  \<^verbatim>\<open>Graph.__init__\<close>: no argument is checked. \<^verbatim>\<open>[0] * num_nodes\<close> is the empty list
  when \<open>num_nodes\<close> is not positive.
\<close>

definition Graph_init :: "int \<Rightarrow> int \<Rightarrow> int \<Rightarrow> Graph" where
  "Graph_init n s t =
     \<lparr>num_nodes = n, source = s - 1, sink = t - 1,
      graph = replicate (nat n) [], edges = []\<rparr>"

text \<open>
  A method returns its result, or the exception it raised, together with the graph as
  the method left it.
\<close>

type_synonym 'a result = "(error + 'a) \<times> Graph"

text \<open>
  \<^verbatim>\<open>Graph.add_edge\<close>: both edge objects are created and linked first; then the edge
  is appended to the list of its start node and the partner to the list of the end
  node. Either append raises \<^verbatim>\<open>IndexError\<close> when its index is out of range, the
  second one after the first append has happened.
\<close>

definition add_edge :: "Graph \<Rightarrow> int \<Rightarrow> int \<Rightarrow> int \<Rightarrow> unit result" where
  "add_edge g from_n to_n cap =
     (let d = length (edges g);
          r = Suc d;
          directed_edge = (Edge_init cap from_n to_n)\<lparr>residual := r\<rparr>;
          residual_edge = (Edge_init 0 to_n from_n)\<lparr>residual := d\<rparr>;
          g0 = g\<lparr>edges := edges g @ [directed_edge, residual_edge]\<rparr>
      in case py_index (graph g0) (from_n - 1) of
           None \<Rightarrow> (Inl IndexError, g0)
         | Some i \<Rightarrow>
             (let g1 = g0\<lparr>graph := (graph g0)[i := graph g0 ! i @ [d]]\<rparr>
              in case py_index (graph g1) (to_n - 1) of
                   None \<Rightarrow> (Inl IndexError, g1)
                 | Some j \<Rightarrow>
                     (Inr (), g1\<lparr>graph := (graph g1)[j := graph g1 ! j @ [r]]\<rparr>)))"

text \<open>A caller's sequence of \<^verbatim>\<open>add_edge\<close> calls; an exception ends it.\<close>

fun add_edges :: "Graph \<Rightarrow> (int \<times> int \<times> int) list \<Rightarrow> unit result" where
  "add_edges g [] = (Inr (), g)"
| "add_edges g ((from_n, to_n, cap) # es) =
     (case add_edge g from_n to_n cap of
        (Inl e, g') \<Rightarrow> (Inl e, g')
      | (Inr _, g') \<Rightarrow> add_edges g' es)"

definition build :: "int \<Rightarrow> int \<Rightarrow> int \<Rightarrow> (int \<times> int \<times> int) list \<Rightarrow> unit result" where
  "build n s t es = add_edges (Graph_init n s t) es"

subsection \<open>The breadth-first search\<close>

text \<open>
  The body of the \<^verbatim>\<open>for edge in self.graph[current_vertex]\<close> loop of \<^verbatim>\<open>Graph.bfs\<close>,
  over the remaining addresses of the list. \<^verbatim>\<open>and\<close> is short-circuit: \<open>visited\<close> is
  read only when the edge has remaining capacity.
\<close>

fun visit_edges ::
  "Edge list \<Rightarrow> nat list \<Rightarrow> bool list \<Rightarrow> nat option list \<Rightarrow> int list \<Rightarrow>
   error + (bool list \<times> nat option list \<times> int list)" where
  "visit_edges es [] visited previous bfs_queue = Inr (visited, previous, bfs_queue)"
| "visit_edges es (a # as) visited previous bfs_queue =
     (let edge = es ! a in
      if remaining_capacity edge > 0 then
        (case py_get visited (to_node edge) of
           None \<Rightarrow> Inl IndexError
         | Some seen \<Rightarrow>
             if \<not> seen then
               (case py_set visited (to_node edge) True of
                  None \<Rightarrow> Inl IndexError
                | Some visited' \<Rightarrow>
                    (case py_set previous (to_node edge) (Some a) of
                       None \<Rightarrow> Inl IndexError
                     | Some previous' \<Rightarrow>
                         visit_edges es as visited' previous' (bfs_queue @ [to_node edge])))
             else visit_edges es as visited previous bfs_queue)
      else visit_edges es as visited previous bfs_queue)"

definition unvisited :: "bool list \<Rightarrow> nat" where
  "unvisited visited = length (filter Not visited)"

lemma py_index_less: "py_index xs i = Some k \<Longrightarrow> k < length xs"
  by (auto simp: py_index_def Let_def split: if_splits)

lemma unvisited_mark:
  assumes "k < length visited" and "\<not> visited ! k"
  shows "Suc (unvisited (visited[k := True])) = unvisited visited"
proof -
  have eq: "visited = take k visited @ visited ! k # drop (Suc k) visited"
    using assms(1) by (simp add: id_take_nth_drop)
  have upd: "visited[k := True] = take k visited @ True # drop (Suc k) visited"
    using assms(1) by (simp add: upd_conv_take_nth_drop)
  have "unvisited visited =
        unvisited (take k visited @ visited ! k # drop (Suc k) visited)"
    using eq by simp
  then show ?thesis
    using assms(2) by (simp add: unvisited_def upd)
qed

lemma visit_edges_measure:
  "visit_edges es as visited previous q = Inr (visited', previous', q') \<Longrightarrow>
   unvisited visited' + length q' = unvisited visited + length q"
proof (induction as arbitrary: visited previous q)
  case Nil
  then show ?case by simp
next
  case (Cons a as)
  show ?case
  proof (cases "remaining_capacity (es ! a) > 0")
    case False
    with Cons show ?thesis by simp
  next
    case True
    show ?thesis
    proof (cases "py_index visited (to_node (es ! a))")
      case None
      with True Cons.prems show ?thesis by (simp add: py_get_def)
    next
      case (Some k)
      show ?thesis
      proof (cases "visited ! k")
        case True
        with \<open>remaining_capacity (es ! a) > 0\<close> Some Cons show ?thesis
          by (simp add: py_get_def)
      next
        case False
        from Some have k: "k < length visited" by (rule py_index_less)
        from Cons.prems \<open>remaining_capacity (es ! a) > 0\<close> Some False
        obtain previous1 where
          rec: "visit_edges es as (visited[k := True]) previous1
                  (q @ [to_node (es ! a)]) = Inr (visited', previous', q')"
          by (auto simp: py_get_def py_set_def Let_def split: option.splits)
        from Cons.IH [OF rec] unvisited_mark [OF k False]
        show ?thesis by simp
      qed
    qed
  qed
qed

text \<open>
  The \<^verbatim>\<open>while len(bfs_queue) != 0\<close> loop of \<^verbatim>\<open>Graph.bfs\<close>: \<^verbatim>\<open>pop(0)\<close> takes the head
  of the queue, and the loop ends early once the sink is taken. Every append to the
  queue marks a cell of \<open>visited\<close> that was not marked, so the loop ends for every
  graph.
\<close>

function bfs_loop ::
  "Graph \<Rightarrow> int list \<Rightarrow> bool list \<Rightarrow> nat option list \<Rightarrow>
   error + (bool list \<times> nat option list)" where
  "bfs_loop g [] visited previous = Inr (visited, previous)"
| "bfs_loop g (current_vertex # bfs_queue) visited previous =
     (if current_vertex = sink g then Inr (visited, previous)
      else
        (case py_get (graph g) current_vertex of
           None \<Rightarrow> Inl IndexError
         | Some adj \<Rightarrow>
             (case visit_edges (edges g) adj visited previous bfs_queue of
                Inl e \<Rightarrow> Inl e
              | Inr (visited', previous', bfs_queue') \<Rightarrow>
                  bfs_loop g bfs_queue' visited' previous')))"
  by pat_completeness auto

termination
  by (relation "measure (\<lambda>(g, q, visited, previous). unvisited visited + length q)")
     (auto dest: visit_edges_measure)

text \<open>
  The two walks of \<^verbatim>\<open>Graph.bfs\<close> along the predecessor array, from the edge into the
  sink back to the source: \<^verbatim>\<open>while edge is not None: ...; edge = previous[edge.from_node]\<close>.
  Both are entered with \<^verbatim>\<open>edge = previous[self.sink]\<close>, which is not \<^verbatim>\<open>None\<close> there
  (the method has returned 0 otherwise), so the body runs before the first test; the
  functions below take the current edge, run the body, and test the next edge. In the
  first walk \<open>network_flow\<close> is \<open>None\<close> for \<^verbatim>\<open>math.inf\<close>, which every integer is below.
  A walk need not end for an arbitrary array: not returning is the value \<open>None\<close>.
\<close>

fun min_flow :: "int option \<Rightarrow> int \<Rightarrow> int" where
  "min_flow None r = r"
| "min_flow (Some network_flow) r = min network_flow r"

partial_function (option) bottleneck ::
  "Graph \<Rightarrow> nat option list \<Rightarrow> nat \<Rightarrow> int option \<Rightarrow> (error + int) option" where
  "bottleneck g previous a network_flow =
     (let edge = edges g ! a;
          network_flow' = min_flow network_flow (remaining_capacity edge)
      in case py_get previous (from_node edge) of
           None \<Rightarrow> Some (Inl IndexError)
         | Some None \<Rightarrow> Some (Inr network_flow')
         | Some (Some a') \<Rightarrow> bottleneck g previous a' (Some network_flow'))"

declare bottleneck.simps [code]

text \<open>
  \<^verbatim>\<open>edge.flow += network_flow; edge.residual.flow -= network_flow\<close> on the store:
  the second statement reads the store the first one has written.
\<close>

definition push_flow :: "Edge list \<Rightarrow> nat \<Rightarrow> int \<Rightarrow> Edge list" where
  "push_flow es a network_flow =
     (let es1 = es[a := (es ! a)\<lparr>flow := flow (es ! a) + network_flow\<rparr>];
          r = residual (es1 ! a)
      in es1[r := (es1 ! r)\<lparr>flow := flow (es1 ! r) - network_flow\<rparr>])"

partial_function (option) augment ::
  "Graph \<Rightarrow> nat option list \<Rightarrow> nat \<Rightarrow> int \<Rightarrow> (unit result) option" where
  "augment g previous a network_flow =
     (let g' = g\<lparr>edges := push_flow (edges g) a network_flow\<rparr>
      in case py_get previous (from_node (edges g' ! a)) of
           None \<Rightarrow> Some (Inl IndexError, g')
         | Some None \<Rightarrow> Some (Inr (), g')
         | Some (Some a') \<Rightarrow> augment g' previous a' network_flow)"

declare augment.simps [code]

text \<open>
  The search part of \<^verbatim>\<open>Graph.bfs\<close> (up to the end of the first loop): the arrays
  \<open>visited\<close> and \<open>previous\<close> it leaves.
\<close>

definition bfs_search :: "Graph \<Rightarrow> error + (bool list \<times> nat option list)" where
  "bfs_search g =
     (case py_set (replicate (nat (num_nodes g)) False) (source g) True of
        None \<Rightarrow> Inl IndexError
      | Some visited \<Rightarrow>
          bfs_loop g [source g] visited (replicate (nat (num_nodes g)) None))"

text \<open>\<^verbatim>\<open>Graph.bfs\<close>.\<close>

definition bfs :: "Graph \<Rightarrow> (int result) option" where
  "bfs g =
     (case bfs_search g of
        Inl e \<Rightarrow> Some (Inl e, g)
      | Inr (visited, previous) \<Rightarrow>
          (case py_get previous (sink g) of
             None \<Rightarrow> Some (Inl IndexError, g)
           | Some None \<Rightarrow> Some (Inr 0, g)
           | Some (Some a) \<Rightarrow>
               (case bottleneck g previous a None of
                  None \<Rightarrow> None
                | Some (Inl e) \<Rightarrow> Some (Inl e, g)
                | Some (Inr network_flow) \<Rightarrow>
                    (case augment g previous a network_flow of
                       None \<Rightarrow> None
                     | Some (Inl e, g') \<Rightarrow> Some (Inl e, g')
                     | Some (Inr _, g') \<Rightarrow> Some (Inr network_flow, g')))))"

subsection \<open>The solver\<close>

text \<open>
  The loop of \<^verbatim>\<open>Graph.edmonds_karp\<close>, \<^verbatim>\<open>while flow > 0: flow = self.bfs(); max_flow += flow\<close>,
  from the values of \<open>max_flow\<close> and \<open>flow\<close> at the test.
\<close>

partial_function (option) edmonds_karp_loop ::
  "Graph \<Rightarrow> int \<Rightarrow> int \<Rightarrow> (int result) option" where
  "edmonds_karp_loop g max_flow flow_v =
     (if flow_v > 0 then
        (case bfs g of
           None \<Rightarrow> None
         | Some (Inl e, g') \<Rightarrow> Some (Inl e, g')
         | Some (Inr flow', g') \<Rightarrow> edmonds_karp_loop g' (max_flow + flow') flow')
      else Some (Inr max_flow, g))"

declare edmonds_karp_loop.simps [code]

definition edmonds_karp :: "Graph \<Rightarrow> (int result) option" where
  "edmonds_karp g = edmonds_karp_loop g 0 1"

subsection \<open>The first network of the program's main block\<close>

definition network1 :: "(int \<times> int \<times> int) list" where
  "network1 =
     [(1, 2, 5), (1, 3, 10), (2, 4, 5), (2, 5, 20), (3, 5, 5), (3, 6, 20), (4, 7, 10),
      (4, 8, 5), (5, 7, 100), (6, 9, 2), (8, 7, 100), (7, 10, 5), (9, 10, 10)]"

section \<open>Networks, paths and invariants\<close>

subsection \<open>Valid networks\<close>

text \<open>
  A caller's network is the node count, the source, the sink (node numbers start at 1)
  and the list of \<^verbatim>\<open>add_edge\<close> arguments. It is valid when the node count is positive,
  the source and the sink are distinct nodes, every edge joins nodes and no capacity is
  negative. The program checks none of this; the properties below are about valid
  networks.
\<close>

definition valid_edge :: "int \<Rightarrow> int \<times> int \<times> int \<Rightarrow> bool" where
  "valid_edge n = (\<lambda>(from_n, to_n, cap). 1 \<le> from_n \<and> from_n \<le> n \<and> 1 \<le> to_n \<and> to_n \<le> n \<and> 0 \<le> cap)"

definition valid_network :: "int \<Rightarrow> int \<Rightarrow> int \<Rightarrow> (int \<times> int \<times> int) list \<Rightarrow> bool" where
  "valid_network n s t es \<longleftrightarrow>
     0 < n \<and> 1 \<le> s \<and> s \<le> n \<and> 1 \<le> t \<and> t \<le> n \<and> s \<noteq> t \<and> list_all (valid_edge n) es"

text \<open>
  \<^verbatim>\<open>add_edge\<close> creates the edge before its residual edge, so the \<open>k\<close>-th call puts
  the edge at address \<open>2 * k\<close> and the residual edge at \<open>2 * k + 1\<close>.
\<close>

definition forward_edge :: "Graph \<Rightarrow> nat \<Rightarrow> Edge" where
  "forward_edge g k = edges g ! (2 * k)"

definition residual_edge :: "Graph \<Rightarrow> nat \<Rightarrow> Edge" where
  "residual_edge g k = edges g ! (2 * k + 1)"

text \<open>The partner of an address: the other edge of its \<^verbatim>\<open>add_edge\<close> call.\<close>

definition partner :: "nat \<Rightarrow> nat" where
  "partner a = (if even a then Suc a else a - 1)"

text \<open>The addresses of the edges that start at a node, in the order of creation.\<close>

definition adjacent :: "Edge list \<Rightarrow> int \<Rightarrow> nat list" where
  "adjacent es v = filter (\<lambda>a. from_node (es ! a) = v) [0..<length es]"

text \<open>What the constructor and the calls \<open>es\<close> of \<^verbatim>\<open>add_edge\<close> leave.\<close>

definition built :: "Graph \<Rightarrow> int \<Rightarrow> int \<Rightarrow> int \<Rightarrow> (int \<times> int \<times> int) list \<Rightarrow> bool" where
  "built g n s t es \<longleftrightarrow>
     num_nodes g = n \<and> source g = s - 1 \<and> sink g = t - 1 \<and>
     length (graph g) = nat n \<and>
     length (edges g) = 2 * length es \<and>
     (\<forall>k < length es.
        forward_edge g k =
          (case es ! k of (from_n, to_n, cap) \<Rightarrow>
             \<lparr>capacity = cap, from_node = from_n - 1, to_node = to_n - 1, flow = 0,
              residual = 2 * k + 1\<rparr>) \<and>
        residual_edge g k =
          (case es ! k of (from_n, to_n, cap) \<Rightarrow>
             \<lparr>capacity = 0, from_node = to_n - 1, to_node = from_n - 1, flow = 0,
              residual = 2 * k\<rparr>)) \<and>
     (\<forall>v < nat n. graph g ! v = adjacent (edges g) (int v))"

subsection \<open>Well-formed networks\<close>

definition node :: "Graph \<Rightarrow> int \<Rightarrow> bool" where
  "node g v \<longleftrightarrow> 0 \<le> v \<and> v < num_nodes g"

text \<open>
  The part of a network that solving never changes (\<open>wf_shape\<close>, \<open>paired\<close>), and the
  conditions on the flows (\<open>wf_flow\<close>). Two stores have the same shape when they
  differ in flows only.
\<close>

definition wf_shape :: "Graph \<Rightarrow> bool" where
  "wf_shape g \<longleftrightarrow>
     node g (source g) \<and> node g (sink g) \<and> source g \<noteq> sink g \<and>
     length (graph g) = nat (num_nodes g) \<and>
     (\<forall>v < nat (num_nodes g). graph g ! v = adjacent (edges g) (int v)) \<and>
     even (length (edges g)) \<and>
     (\<forall>a < length (edges g).
        node g (from_node (edges g ! a)) \<and> node g (to_node (edges g ! a)) \<and>
        residual (edges g ! a) = partner a \<and>
        from_node (edges g ! partner a) = to_node (edges g ! a) \<and>
        (odd a \<longrightarrow> capacity (edges g ! a) = 0))"

definition paired :: "Edge list \<Rightarrow> bool" where
  "paired es \<longleftrightarrow>
     even (length es) \<and>
     (\<forall>a < length es. residual (es ! a) = partner a \<and>
        from_node (es ! partner a) = to_node (es ! a))"

definition wf_flow :: "Edge list \<Rightarrow> bool" where
  "wf_flow es \<longleftrightarrow>
     (\<forall>a < length es.
        flow (es ! partner a) = - flow (es ! a) \<and> flow (es ! a) \<le> capacity (es ! a))"

definition wf_graph :: "Graph \<Rightarrow> bool" where
  "wf_graph g \<longleftrightarrow> wf_shape g \<and> wf_flow (edges g)"

definition same_shape :: "Edge list \<Rightarrow> Edge list \<Rightarrow> bool" where
  "same_shape es es' \<longleftrightarrow>
     length es' = length es \<and>
     (\<forall>a < length es.
        capacity (es' ! a) = capacity (es ! a) \<and> from_node (es' ! a) = from_node (es ! a) \<and>
        to_node (es' ! a) = to_node (es ! a) \<and> residual (es' ! a) = residual (es ! a))"

definition same_network :: "Graph \<Rightarrow> Graph \<Rightarrow> bool" where
  "same_network g g' \<longleftrightarrow>
     num_nodes g' = num_nodes g \<and> source g' = source g \<and> sink g' = sink g \<and>
     graph g' = graph g \<and> same_shape (edges g) (edges g')"

text \<open>
  The residual invariant in the program's own terms: the \<^verbatim>\<open>residual\<close> of an edge is
  an edge of the store whose \<^verbatim>\<open>residual\<close> is the edge again, and the two flows are
  opposite.
\<close>

definition pair_inv :: "Edge list \<Rightarrow> bool" where
  "pair_inv es \<longleftrightarrow>
     (\<forall>a < length es.
        residual (es ! a) < length es \<and> residual (es ! residual (es ! a)) = a \<and>
        flow (es ! a) = - flow (es ! residual (es ! a)))"

subsection \<open>Paths\<close>

text \<open>
  An augmenting path from \<open>u\<close> to \<open>v\<close>: edges of the adjacency lists, each with
  remaining capacity, each starting where the one before it ends.
\<close>

fun aug_path :: "Graph \<Rightarrow> int \<Rightarrow> nat list \<Rightarrow> int \<Rightarrow> bool" where
  "aug_path g u [] v \<longleftrightarrow> u = v"
| "aug_path g u (a # p) v \<longleftrightarrow>
     (case py_get (graph g) u of None \<Rightarrow> False | Some adj \<Rightarrow> a \<in> set adj) \<and>
     0 < remaining_capacity (edges g ! a) \<and>
     aug_path g (to_node (edges g ! a)) p v"

text \<open>
  The path recorded in the predecessor array: the edges met on the walk
  \<^verbatim>\<open>edge = previous[v]; edge = previous[edge.from_node]; ...\<close> from \<open>v\<close> until the
  node \<open>root\<close>, whose entry is \<^verbatim>\<open>None\<close>, is reached. The list starts with the edge
  into \<open>v\<close>.
\<close>

inductive pred_walk :: "Edge list \<Rightarrow> nat option list \<Rightarrow> int \<Rightarrow> int \<Rightarrow> nat list \<Rightarrow> bool"
  for es previous root where
  stop: "py_get previous root = Some None \<Longrightarrow> pred_walk es previous root root []"
| step: "py_get previous v = Some (Some a) \<Longrightarrow> a < length es \<Longrightarrow> to_node (es ! a) = v \<Longrightarrow>
         pred_walk es previous root (from_node (es ! a)) p \<Longrightarrow>
         pred_walk es previous root v (a # p)"

inductive_cases pred_walk_NilE: "pred_walk es previous root v []"

inductive_cases pred_walk_ConsE: "pred_walk es previous root v (a # p)"

text \<open>
  The minimum of the remaining capacities on a path, as the first walk accumulates it
  and as a minimum of a set; and the store after the paired updates along a path, in
  the order of the list.
\<close>

definition path_min :: "Edge list \<Rightarrow> nat list \<Rightarrow> int \<Rightarrow> int" where
  "path_min es p m = fold (\<lambda>a m. min m (remaining_capacity (es ! a))) p m"

definition bottleneck_of :: "Graph \<Rightarrow> nat list \<Rightarrow> int" where
  "bottleneck_of g p = Min ((\<lambda>a. remaining_capacity (edges g ! a)) ` set p)"

definition push_path :: "Edge list \<Rightarrow> nat list \<Rightarrow> int \<Rightarrow> Edge list" where
  "push_path es p b = fold (\<lambda>a es. push_flow es a b) p es"

subsection \<open>Flows and capacities at a node\<close>

text \<open>
  The net flow out of a node sums the flows of all edges that start there, residual
  edges included; \<open>flow_out\<close> and \<open>flow_in\<close> sum over the forward edges only. The
  capacities out of and into a node are sums over the caller's edges.
\<close>

definition net_flow :: "Edge list \<Rightarrow> int \<Rightarrow> int" where
  "net_flow es v = (\<Sum>a<length es. if from_node (es ! a) = v then flow (es ! a) else 0)"

definition cap_out :: "Edge list \<Rightarrow> int \<Rightarrow> int" where
  "cap_out es v = (\<Sum>a<length es. if from_node (es ! a) = v then capacity (es ! a) else 0)"

definition flow_out :: "Graph \<Rightarrow> int \<Rightarrow> int" where
  "flow_out g v =
     (\<Sum>k<length (edges g) div 2.
        if from_node (forward_edge g k) = v then flow (forward_edge g k) else 0)"

definition flow_in :: "Graph \<Rightarrow> int \<Rightarrow> int" where
  "flow_in g v =
     (\<Sum>k<length (edges g) div 2.
        if to_node (forward_edge g k) = v then flow (forward_edge g k) else 0)"

definition capacity_leaving :: "(int \<times> int \<times> int) list \<Rightarrow> int \<Rightarrow> int" where
  "capacity_leaving es v =
     sum_list (map (\<lambda>(from_n, to_n, cap). if from_n = v then cap else 0) es)"

definition capacity_entering :: "(int \<times> int \<times> int) list \<Rightarrow> int \<Rightarrow> int" where
  "capacity_entering es v =
     sum_list (map (\<lambda>(from_n, to_n, cap). if to_n = v then cap else 0) es)"

subsection \<open>The invariant of the search\<close>

text \<open>
  The state of the search while the edges \<open>todo\<close> of the node \<open>u\<close> taken from the
  queue are still to be looked at; \<open>q\<close> is the queue and \<open>P v\<close> the recorded path of
  a visited node \<open>v\<close>.
  \<^item> \<open>inv_tree\<close>: every visited node has its recorded path, which is an augmenting path
    from the source; an unvisited node has no predecessor.
  \<^item> \<open>inv_levels\<close>: the queue is sorted by the length of the recorded paths, which
    are at most one longer than that of \<open>u\<close>; a node that has left the queue has
    no longer path than \<open>u\<close>; and no edge with remaining capacity between visited nodes
    skips a level.
  \<^item> \<open>inv_closed\<close>: an edge with remaining capacity that starts at a node that has left
    the queue, and is not among \<open>todo\<close>, ends at a visited node.
\<close>

definition inv_tree ::
  "Graph \<Rightarrow> (int \<Rightarrow> nat list) \<Rightarrow> bool list \<Rightarrow> nat option list \<Rightarrow> bool" where
  "inv_tree g P vis prev \<longleftrightarrow>
     length vis = nat (num_nodes g) \<and> length prev = nat (num_nodes g) \<and>
     vis ! nat (source g) \<and>
     (\<forall>v. node g v \<longrightarrow> vis ! nat v \<longrightarrow>
        pred_walk (edges g) prev (source g) v (P v) \<and>
        aug_path g (source g) (rev (P v)) v) \<and>
     (\<forall>v. node g v \<longrightarrow> \<not> vis ! nat v \<longrightarrow> prev ! nat v = None)"

definition inv_levels ::
  "Graph \<Rightarrow> (int \<Rightarrow> nat list) \<Rightarrow> int \<Rightarrow> int list \<Rightarrow> bool list \<Rightarrow> bool" where
  "inv_levels g P u q vis \<longleftrightarrow>
     node g u \<and> vis ! nat u \<and> (\<forall>v \<in> set q. node g v \<and> vis ! nat v) \<and>
     (\<forall>v \<in> set q. length (P u) \<le> length (P v) \<and> length (P v) \<le> Suc (length (P u))) \<and>
     sorted (map (\<lambda>v. length (P v)) q) \<and>
     (\<forall>v. node g v \<longrightarrow> vis ! nat v \<longrightarrow> v \<noteq> u \<longrightarrow> v \<notin> set q \<longrightarrow> length (P v) \<le> length (P u)) \<and>
     (\<forall>a < length (edges g). 0 < remaining_capacity (edges g ! a) \<longrightarrow>
        vis ! nat (from_node (edges g ! a)) \<longrightarrow> vis ! nat (to_node (edges g ! a)) \<longrightarrow>
        length (P (to_node (edges g ! a))) \<le> Suc (length (P (from_node (edges g ! a)))))"

definition inv_closed :: "Graph \<Rightarrow> int \<Rightarrow> nat list \<Rightarrow> int list \<Rightarrow> bool list \<Rightarrow> bool" where
  "inv_closed g u todo q vis \<longleftrightarrow>
     set todo \<subseteq> set (adjacent (edges g) u) \<and>
     (\<forall>a < length (edges g). 0 < remaining_capacity (edges g ! a) \<longrightarrow>
        vis ! nat (from_node (edges g ! a)) \<longrightarrow>
        from_node (edges g ! a) \<notin> set q \<longrightarrow>
        (from_node (edges g ! a) = u \<longrightarrow> a \<notin> set todo) \<longrightarrow>
        vis ! nat (to_node (edges g ! a)))"

definition bfs_inv ::
  "Graph \<Rightarrow> (int \<Rightarrow> nat list) \<Rightarrow> int \<Rightarrow> nat list \<Rightarrow> int list \<Rightarrow> bool list \<Rightarrow>
   nat option list \<Rightarrow> bool" where
  "bfs_inv g P u todo q vis prev \<longleftrightarrow>
     inv_tree g P vis prev \<and> inv_levels g P u q vis \<and> inv_closed g u todo q vis"

text \<open>
  What the search leaves in the predecessor array: no entry for the sink when no
  augmenting path exists, and otherwise a recorded path that is an augmenting path with
  the fewest edges.
\<close>

definition search_post :: "Graph \<Rightarrow> nat option list \<Rightarrow> bool" where
  "search_post g prev \<longleftrightarrow>
     length prev = nat (num_nodes g) \<and>
     (case prev ! nat (sink g) of
        None \<Rightarrow> \<forall>p. \<not> aug_path g (source g) p (sink g)
      | Some a \<Rightarrow>
          (\<exists>p. pred_walk (edges g) prev (source g) (sink g) (a # p) \<and>
               aug_path g (source g) (rev (a # p)) (sink g) \<and>
               (\<forall>p'. aug_path g (source g) p' (sink g) \<longrightarrow> length (a # p) \<le> length p')))"

subsection \<open>The states of a network while it is solved\<close>

text \<open>
  The network as it is handed to the solver, and the network after each call of
  \<^verbatim>\<open>Graph.bfs\<close>.
\<close>

inductive solving :: "Graph \<Rightarrow> Graph \<Rightarrow> bool" for g where
  start: "solving g g"
| search: "solving g g1 \<Longrightarrow> bfs g1 = Some (r, g2) \<Longrightarrow> solving g g2"

subsection \<open>Two concrete networks\<close>

text \<open>
  The first network of the main block, built; and a network of two nodes whose only
  edge runs from the sink to the source.
\<close>

definition network1_graph :: Graph where
  "network1_graph = snd (build 10 1 10 network1)"

definition network_back :: "(int \<times> int \<times> int) list" where
  "network_back = [(2, 1, 5)]"

definition network_back_graph :: Graph where
  "network_back_graph = snd (build 2 1 2 network_back)"

section \<open>Properties of the program\<close>

subsection \<open>Building a network\<close>

lemma py_index_node: "0 \<le> i \<Longrightarrow> i < int (length xs) \<Longrightarrow> py_index xs i = Some (nat i)"
  by (simp add: py_index_def)

lemma py_get_node: "0 \<le> i \<Longrightarrow> i < int (length xs) \<Longrightarrow> py_get xs i = Some (xs ! nat i)"
  by (simp add: py_get_def py_index_node)

lemma py_set_node: "0 \<le> i \<Longrightarrow> i < int (length xs) \<Longrightarrow> py_set xs i v = Some (xs[nat i := v])"
  by (simp add: py_set_def py_index_node)

lemma built_init: "built (Graph_init n s t) n s t []"
  by (simp add: built_def Graph_init_def adjacent_def)

lemma adjacent_snoc2:
  "adjacent (es @ [d, r]) v =
     adjacent es v @ (if from_node d = v then [length es] else []) @
       (if from_node r = v then [Suc (length es)] else [])"
proof -
  have "filter (\<lambda>a. from_node ((es @ [d, r]) ! a) = v) [0..<length es] =
        filter (\<lambda>a. from_node (es ! a) = v) [0..<length es]"
    by (rule filter_cong) (auto simp: nth_append)
  moreover have "[0..<length (es @ [d, r])] = [0..<length es] @ [length es, Suc (length es)]"
    by (simp add: upt_rec [of "length es"])
  ultimately show ?thesis
    by (simp add: adjacent_def nth_append)
qed

lemma add_edge_built:
  assumes b: "built g n s t es" and v: "valid_edge n (from_n, to_n, cap)"
  shows "\<exists>g'. add_edge g from_n to_n cap = (Inr (), g') \<and>
               built g' n s t (es @ [(from_n, to_n, cap)])"
proof -
  let ?d = "length (edges g)"
  let ?de = "(Edge_init cap from_n to_n)\<lparr>residual := Suc ?d\<rparr>"
  let ?re = "(Edge_init 0 to_n from_n)\<lparr>residual := ?d\<rparr>"
  let ?i = "nat (from_n - 1)" and ?j = "nat (to_n - 1)"
  let ?gr1 = "(graph g)[?i := graph g ! ?i @ [?d]]"
  let ?gr2 = "?gr1[?j := ?gr1 ! ?j @ [Suc ?d]]"
  let ?g' = "g\<lparr>edges := edges g @ [?de, ?re], graph := ?gr2\<rparr>"
  from b have len: "length (graph g) = nat n" and d: "?d = 2 * length es"
    and nn: "num_nodes g = n"
    by (simp_all add: built_def)
  from v have rng: "0 \<le> from_n - 1" "from_n - 1 < int (length (graph g))"
      "0 \<le> to_n - 1" "to_n - 1 < int (length (graph g))"
    by (auto simp: valid_edge_def len)
  have i: "?i < nat n" and j: "?j < nat n"
    using v by (auto simp: valid_edge_def)
  have run: "add_edge g from_n to_n cap = (Inr (), ?g')"
    using rng by (simp add: add_edge_def Let_def py_index_node)
  have edges': "edges ?g' = edges g @ [?de, ?re]" by simp
  have fwd: "forward_edge ?g' k =
          (case (es @ [(from_n, to_n, cap)]) ! k of (from_n, to_n, cap) \<Rightarrow>
             \<lparr>capacity = cap, from_node = from_n - 1, to_node = to_n - 1, flow = 0,
              residual = 2 * k + 1\<rparr>)"
     and bwd: "residual_edge ?g' k =
          (case (es @ [(from_n, to_n, cap)]) ! k of (from_n, to_n, cap) \<Rightarrow>
             \<lparr>capacity = 0, from_node = to_n - 1, to_node = from_n - 1, flow = 0,
              residual = 2 * k\<rparr>)"
    if "k < Suc (length es)" for k
  proof -
    show "forward_edge ?g' k =
          (case (es @ [(from_n, to_n, cap)]) ! k of (from_n, to_n, cap) \<Rightarrow>
             \<lparr>capacity = cap, from_node = from_n - 1, to_node = to_n - 1, flow = 0,
              residual = 2 * k + 1\<rparr>)"
    proof (cases "k < length es")
      case True
      with b d show ?thesis
        by (simp add: built_def forward_edge_def nth_append)
    next
      case False
      with that have "k = length es" by simp
      then show ?thesis
        by (simp add: forward_edge_def nth_append d Edge_init_def)
    qed
    show "residual_edge ?g' k =
          (case (es @ [(from_n, to_n, cap)]) ! k of (from_n, to_n, cap) \<Rightarrow>
             \<lparr>capacity = 0, from_node = to_n - 1, to_node = from_n - 1, flow = 0,
              residual = 2 * k\<rparr>)"
    proof (cases "k < length es")
      case True
      with b d show ?thesis
        by (simp add: built_def residual_edge_def nth_append)
    next
      case False
      with that have "k = length es" by simp
      then show ?thesis
        by (simp add: residual_edge_def nth_append d Edge_init_def)
    qed
  qed
  have adj: "graph ?g' ! v = adjacent (edges ?g') (int v)" if "v < nat n" for v
  proof -
    from b that have old: "graph g ! v = adjacent (edges g) (int v)"
      by (simp add: built_def)
    have fd: "from_node ?de = int ?i" and fr: "from_node ?re = int ?j"
      using rng by (simp_all add: Edge_init_def)
    have "graph ?g' ! v =
            graph g ! v @ (if v = ?i then [?d] else []) @ (if v = ?j then [Suc ?d] else [])"
      using that i j len by (auto simp: nth_list_update)
    also have "\<dots> = adjacent (edges ?g') (int v)"
      unfolding edges' adjacent_snoc2 old fd fr by auto
    finally show ?thesis .
  qed
  have "built ?g' n s t (es @ [(from_n, to_n, cap)])"
    unfolding built_def
    using b fwd bwd adj by (simp add: built_def)
  with run show ?thesis by blast
qed

lemma add_edges_built:
  "built g n s t es0 \<Longrightarrow> list_all (valid_edge n) es \<Longrightarrow>
   \<exists>g'. add_edges g es = (Inr (), g') \<and> built g' n s t (es0 @ es)"
proof (induction es arbitrary: g es0)
  case Nil
  then show ?case by simp
next
  case (Cons x es)
  obtain from_n to_n cap where x: "x = (from_n, to_n, cap)" by (cases x)
  from Cons.prems x have "valid_edge n (from_n, to_n, cap)" by simp
  from add_edge_built [OF Cons.prems(1) this] obtain g1 where
    g1: "add_edge g from_n to_n cap = (Inr (), g1)"
      "built g1 n s t (es0 @ [(from_n, to_n, cap)])"
    by blast
  from Cons.IH [OF g1(2)] Cons.prems(2) obtain g' where
    "add_edges g1 es = (Inr (), g')" "built g' n s t ((es0 @ [(from_n, to_n, cap)]) @ es)"
    by auto
  with g1 x show ?case by simp
qed

lemma build_built:
  "valid_network n s t es \<Longrightarrow> \<exists>g. build n s t es = (Inr (), g) \<and> built g n s t es"
  using add_edges_built [OF built_init, of n es s t]
  by (simp add: build_def valid_network_def)

subsection \<open>Partners and shapes\<close>

lemma partner_partner [simp]: "partner (partner a) = a"
  by (auto simp: partner_def)

lemma partner_neq [simp]: "partner a \<noteq> a" "a \<noteq> partner a"
  by (auto simp: partner_def elim: oddE)

lemma partner_less: "even m \<Longrightarrow> a < m \<Longrightarrow> partner a < m"
  by (auto simp: partner_def elim!: evenE oddE)

lemma partner_parity [simp]: "even (partner a) \<longleftrightarrow> odd a"
  by (auto simp: partner_def)

lemma same_shape_refl [simp]: "same_shape es es"
  by (simp add: same_shape_def)

lemma same_shape_trans: "same_shape es es' \<Longrightarrow> same_shape es' es'' \<Longrightarrow> same_shape es es''"
  by (simp add: same_shape_def)

lemma same_shape_adjacent: "same_shape es es' \<Longrightarrow> adjacent es' v = adjacent es v"
  unfolding adjacent_def same_shape_def
  by (auto intro: filter_cong)

lemma wf_shape_same:
  assumes "wf_shape g" "same_shape (edges g) es'"
  shows "wf_shape (g\<lparr>edges := es'\<rparr>)"
proof -
  from assms(2) have len: "length es' = length (edges g)"
    by (simp add: same_shape_def)
  have pl: "partner a < length (edges g)" if "a < length (edges g)" for a
    using assms(1) that by (simp add: wf_shape_def partner_less)
  show ?thesis
    unfolding wf_shape_def
    using assms(1) same_shape_adjacent [OF assms(2)] assms(2) pl
    by (simp add: wf_shape_def node_def same_shape_def)
qed

lemma built_length_even: "built g n s t es \<Longrightarrow> even (length (edges g))"
  by (simp add: built_def)

lemma built_edge_cases:
  assumes "a < 2 * length (es :: 'a list)"
  obtains k where "k < length es" "a = 2 * k" | k where "k < length es" "a = 2 * k + 1"
proof (cases "even a")
  case True
  then obtain k where "a = 2 * k" by (elim evenE)
  with assms that(1) show ?thesis by simp
next
  case False
  then obtain k where "a = 2 * k + 1" by (elim oddE)
  with assms that(2) show ?thesis by simp
qed

lemma built_wf:
  assumes v: "valid_network n s t es" and b: "built g n s t es"
  shows "wf_graph g"
proof -
  from b have len: "length (edges g) = 2 * length es" by (simp add: built_def)
  have ve: "valid_edge n (es ! k)" if "k < length es" for k
    using v that by (simp add: valid_network_def list_all_length)
  have fw: "edges g ! (2 * k) =
          (case es ! k of (from_n, to_n, cap) \<Rightarrow>
             \<lparr>capacity = cap, from_node = from_n - 1, to_node = to_n - 1, flow = 0,
              residual = 2 * k + 1\<rparr>)"
    and bw: "edges g ! Suc (2 * k) =
          (case es ! k of (from_n, to_n, cap) \<Rightarrow>
             \<lparr>capacity = 0, from_node = to_n - 1, to_node = from_n - 1, flow = 0,
              residual = 2 * k\<rparr>)"
    if "k < length es" for k
    using b that by (simp_all add: built_def forward_edge_def residual_edge_def)
  have edge: "node g (from_node (edges g ! a)) \<and> node g (to_node (edges g ! a)) \<and>
        residual (edges g ! a) = partner a \<and>
        from_node (edges g ! partner a) = to_node (edges g ! a) \<and>
        (odd a \<longrightarrow> capacity (edges g ! a) = 0) \<and>
        flow (edges g ! partner a) = - flow (edges g ! a) \<and>
        flow (edges g ! a) \<le> capacity (edges g ! a)"
    if "a < length (edges g)" for a
  proof -
    from that len have "a < 2 * length es" by simp
    then show ?thesis
    proof (cases rule: built_edge_cases)
      case (1 k)
      obtain from_n to_n cap where e: "es ! k = (from_n, to_n, cap)" by (cases "es ! k")
      from ve [OF 1(1)] e have "valid_edge n (from_n, to_n, cap)" by simp
      then show ?thesis
        using b fw [OF 1(1)] bw [OF 1(1)] 1(2) e
        by (simp add: partner_def node_def valid_edge_def built_def)
    next
      case (2 k)
      obtain from_n to_n cap where e: "es ! k = (from_n, to_n, cap)" by (cases "es ! k")
      from ve [OF 2(1)] e have "valid_edge n (from_n, to_n, cap)" by simp
      then show ?thesis
        using b fw [OF 2(1)] bw [OF 2(1)] 2(2) e
        by (simp add: partner_def node_def valid_edge_def built_def)
    qed
  qed
  have "wf_shape g"
    unfolding wf_shape_def
    using v b edge len by (auto simp: valid_network_def built_def node_def)
  moreover have "wf_flow (edges g)"
    unfolding wf_flow_def using edge by blast
  ultimately show ?thesis by (simp add: wf_graph_def)
qed

subsection \<open>Recorded paths\<close>

lemma pred_walk_same_shape:
  "pred_walk es previous root v p \<Longrightarrow> same_shape es es' \<Longrightarrow> pred_walk es' previous root v p"
proof (induction rule: pred_walk.induct)
  case stop
  then show ?case by (simp add: pred_walk.stop)
next
  case (step v a p)
  from step.prems step.hyps(2) have
    "a < length es'" "to_node (es' ! a) = to_node (es ! a)"
    "from_node (es' ! a) = from_node (es ! a)"
    by (simp_all add: same_shape_def)
  with step show ?case by (simp add: pred_walk.step)
qed

lemma pred_walk_deterministic:
  "pred_walk es previous root v p \<Longrightarrow> pred_walk es previous root v p' \<Longrightarrow> p = p'"
proof (induction arbitrary: p' rule: pred_walk.induct)
  case stop
  then show ?case by (auto elim: pred_walk.cases)
next
  case (step v a p)
  from step.prems step.hyps(1) obtain p1 where
    "p' = a # p1" "pred_walk es previous root (from_node (es ! a)) p1"
    by (auto elim: pred_walk.cases)
  with step.IH show ?case by simp
qed

lemma pred_walk_bound: "pred_walk es previous root v p \<Longrightarrow> \<forall>a \<in> set p. a < length es"
  by (induction rule: pred_walk.induct) auto

text \<open>Every edge of a walk starts a walk of its own, to its end node: a suffix.\<close>

lemma pred_walk_suffix:
  "pred_walk es previous root v p \<Longrightarrow> a \<in> set p \<Longrightarrow>
   \<exists>p1 p2. p = p1 @ a # p2 \<and> pred_walk es previous root (to_node (es ! a)) (a # p2)"
proof (induction rule: pred_walk.induct)
  case stop
  then show ?case by simp
next
  case (step v b p)
  show ?case
  proof (cases "a = b")
    case True
    have "pred_walk es previous root (to_node (es ! b)) (b # p)"
      using step.hyps by (auto intro: pred_walk.step)
    with True have "b # p = [] @ a # p \<and> pred_walk es previous root (to_node (es ! a)) (a # p)"
      by simp
    then show ?thesis by blast
  next
    case False
    with step.prems have "a \<in> set p" by simp
    from step.IH [OF this] obtain p1 p2 where
      "p = p1 @ a # p2" "pred_walk es previous root (to_node (es ! a)) (a # p2)" by blast
    then have "b # p = (b # p1) @ a # p2 \<and>
        pred_walk es previous root (to_node (es ! a)) (a # p2)"
      by simp
    then show ?thesis by blast
  qed
qed

lemma pred_walk_distinct: "pred_walk es previous root v p \<Longrightarrow> distinct p"
proof (induction rule: pred_walk.induct)
  case stop
  then show ?case by simp
next
  case (step v a p)
  have "a \<notin> set p"
  proof
    assume "a \<in> set p"
    from pred_walk_suffix [OF step.hyps(4) this] step.hyps(3) obtain p1 p2 where
      p: "p = p1 @ a # p2" and w: "pred_walk es previous root v (a # p2)"
      by auto
    have "pred_walk es previous root v (a # p)"
      using step.hyps by (auto intro: pred_walk.step)
    from pred_walk_deterministic [OF this w] p show False by simp
  qed
  with step.IH show ?case by simp
qed

lemma py_index_update [simp]: "py_index (xs[k := x]) i = py_index xs i"
  by (simp add: py_index_def)

text \<open>Writing a cell that is empty and is not the root's leaves every walk.\<close>

lemma pred_walk_update:
  assumes "pred_walk es previous root v p"
    and "previous ! k = None" and "py_index previous root \<noteq> Some k"
  shows "pred_walk es (previous[k := x]) root v p"
  using assms
proof (induction rule: pred_walk.induct)
  case stop
  then obtain j where j: "py_index previous root = Some j" "previous ! j = None"
    by (auto simp: py_get_def split: option.splits)
  with stop.prems have "j \<noteq> k" by auto
  with j have "py_get (previous[k := x]) root = Some None"
    by (simp add: py_get_def)
  then show ?case by (rule pred_walk.stop)
next
  case (step v a p)
  then obtain j where j: "py_index previous v = Some j" "previous ! j = Some a"
    by (auto simp: py_get_def split: option.splits)
  with step.prems have "j \<noteq> k" by auto
  with j have "py_get (previous[k := x]) v = Some (Some a)"
    by (simp add: py_get_def)
  with step show ?case by (auto intro: pred_walk.step)
qed

subsection \<open>One paired update\<close>

lemma push_flow_length [simp]: "length (push_flow es a b) = length es"
  by (simp add: push_flow_def Let_def)

lemma push_flow_nth:
  assumes "a < length es" "residual (es ! a) = partner a" "x < length es"
  shows "push_flow es a b ! x =
     (if x = a then (es ! a)\<lparr>flow := flow (es ! a) + b\<rparr>
      else if x = partner a then (es ! x)\<lparr>flow := flow (es ! x) - b\<rparr>
      else es ! x)"
  using assms by (auto simp: push_flow_def Let_def nth_list_update)

lemma push_flow_same_shape:
  assumes "a < length es" "residual (es ! a) = partner a"
  shows "same_shape es (push_flow es a b)"
  unfolding same_shape_def
  by (auto simp: push_flow_nth [OF assms])

lemma push_flow_flow:
  assumes "a < length es" "residual (es ! a) = partner a" "x < length es"
  shows "flow (push_flow es a b ! x) =
     flow (es ! x) + (if x = a then b else 0) - (if x = partner a then b else 0)"
  by (auto simp: push_flow_nth [OF assms])

lemma push_path_Nil [simp]: "push_path es [] b = es"
  by (simp add: push_path_def)

lemma push_path_Cons [simp]: "push_path es (a # p) b = push_path (push_flow es a b) p b"
  by (simp add: push_path_def)

lemma push_path_same_shape:
  "\<forall>a \<in> set p. a < length es \<Longrightarrow> \<forall>a < length es. residual (es ! a) = partner a \<Longrightarrow>
   same_shape es (push_path es p b)"
proof (induction p arbitrary: es)
  case Nil
  then show ?case by simp
next
  case (Cons a p)
  from Cons.prems have a: "a < length es" "residual (es ! a) = partner a" by auto
  note s1 = push_flow_same_shape [OF a, of b]
  have "same_shape (push_flow es a b) (push_path (push_flow es a b) p b)"
  proof (rule Cons.IH)
    show "\<forall>x\<in>set p. x < length (push_flow es a b)" using Cons.prems by simp
    show "\<forall>x<length (push_flow es a b). residual (push_flow es a b ! x) = partner x"
      using s1 Cons.prems(2) by (simp add: same_shape_def)
  qed
  from same_shape_trans [OF s1 this] show ?case by simp
qed

lemma wf_shape_paired: "wf_shape g \<Longrightarrow> paired (edges g)"
  by (simp add: wf_shape_def paired_def)

lemma paired_same_shape:
  assumes "paired es" "same_shape es es'"
  shows "paired es'"
proof -
  have "partner a < length es" if "a < length es" for a
    using assms(1) that by (simp add: paired_def partner_less)
  with assms show ?thesis
    by (simp add: paired_def same_shape_def)
qed

lemma paired_residual: "paired es \<Longrightarrow> a < length es \<Longrightarrow> residual (es ! a) = partner a"
  by (simp add: paired_def)

lemma paired_partner_less: "paired es \<Longrightarrow> a < length es \<Longrightarrow> partner a < length es"
  by (simp add: paired_def partner_less)

lemma paired_push_flow: "paired es \<Longrightarrow> a < length es \<Longrightarrow> paired (push_flow es a b)"
  by (rule paired_same_shape) (auto intro: push_flow_same_shape paired_residual)

subsection \<open>The two walks along a recorded path\<close>

lemma path_min_Nil [simp]: "path_min es [] m = m"
  by (simp add: path_min_def)

lemma path_min_Cons [simp]:
  "path_min es (a # p) m = path_min es p (min m (remaining_capacity (es ! a)))"
  by (simp add: path_min_def)

lemma path_min_le: "path_min es p m \<le> m"
proof (induction p arbitrary: m)
  case Nil
  show ?case by simp
next
  case (Cons a p)
  from Cons [of "min m (remaining_capacity (es ! a))"] show ?case by simp
qed

lemma path_min_le_edge: "a \<in> set p \<Longrightarrow> path_min es p m \<le> remaining_capacity (es ! a)"
proof (induction p arbitrary: m)
  case Nil
  then show ?case by simp
next
  case (Cons x p)
  show ?case
  proof (cases "a = x")
    case True
    from path_min_le [of es p "min m (remaining_capacity (es ! x))"] True
    show ?thesis by simp
  next
    case False
    with Cons show ?thesis by simp
  qed
qed

lemma path_min_Min:
  "path_min es p m = Min (insert m ((\<lambda>a. remaining_capacity (es ! a)) ` set p))"
proof (induction p arbitrary: m)
  case Nil
  show ?case by simp
next
  case (Cons a p)
  let ?r = "\<lambda>a. remaining_capacity (es ! a)"
  have step: "path_min es (a # p) m = Min (insert (min m (?r a)) (?r ` set p))"
    using Cons by simp
  show ?case
  proof (cases "set p = {}")
    case True
    with step show ?thesis by simp
  next
    case False
    then have ne: "?r ` set p \<noteq> {}" and fin: "finite (?r ` set p)" by simp_all
    have "Min (insert (min m (?r a)) (?r ` set p)) = min (min m (?r a)) (Min (?r ` set p))"
      using fin ne by (rule Min_insert)
    moreover have "Min (insert m (insert (?r a) (?r ` set p))) =
        min m (min (?r a) (Min (?r ` set p)))"
      using fin ne by simp
    ultimately show ?thesis
      using step by (simp add: min.assoc)
  qed
qed

lemma bottleneck_walk:
  "pred_walk (edges g) previous root v (a # p) \<Longrightarrow>
   bottleneck g previous a nf =
     Some (Inr (path_min (edges g) p (min_flow nf (remaining_capacity (edges g ! a)))))"
proof (induction p arbitrary: a v nf)
  case Nil
  then have "pred_walk (edges g) previous root (from_node (edges g ! a)) []"
    by (auto elim: pred_walk_ConsE)
  then have "py_get previous (from_node (edges g ! a)) = Some None"
    by (auto elim: pred_walk_NilE)
  then show ?case
    by (subst bottleneck.simps) (simp add: Let_def)
next
  case (Cons a' p)
  then have w: "pred_walk (edges g) previous root (from_node (edges g ! a)) (a' # p)"
    by (auto elim: pred_walk_ConsE)
  then have "py_get previous (from_node (edges g ! a)) = Some (Some a')"
    by (auto elim: pred_walk_ConsE)
  then show ?case
    by (subst bottleneck.simps) (simp add: Let_def Cons.IH [OF w])
qed

lemma augment_walk:
  "pred_walk (edges g) previous root v (a # p) \<Longrightarrow> paired (edges g) \<Longrightarrow>
   augment g previous a b = Some (Inr (), g\<lparr>edges := push_path (edges g) (a # p) b\<rparr>)"
proof (induction p arbitrary: g a v)
  case Nil
  then have a: "a < length (edges g)"
    and w: "pred_walk (edges g) previous root (from_node (edges g ! a)) []"
    by (auto elim: pred_walk_ConsE)
  from w have "py_get previous (from_node (edges g ! a)) = Some None"
    by (auto elim: pred_walk_NilE)
  moreover have "from_node (push_flow (edges g) a b ! a) = from_node (edges g ! a)"
    using push_flow_same_shape [OF a paired_residual [OF Nil.prems(2) a], of b] a
    by (simp add: same_shape_def)
  ultimately show ?case
    by (subst augment.simps) (simp add: Let_def)
next
  case (Cons a' p)
  let ?g' = "g\<lparr>edges := push_flow (edges g) a b\<rparr>"
  from Cons.prems have a: "a < length (edges g)"
    and w: "pred_walk (edges g) previous root (from_node (edges g ! a)) (a' # p)"
    by (auto elim: pred_walk_ConsE)
  note sh = push_flow_same_shape [OF a paired_residual [OF Cons.prems(2) a], of b]
  from w have nxt: "py_get previous (from_node (edges g ! a)) = Some (Some a')"
    by (auto elim: pred_walk_ConsE)
  have fr: "from_node (push_flow (edges g) a b ! a) = from_node (edges g ! a)"
    using sh a by (simp add: same_shape_def)
  have w': "pred_walk (edges ?g') previous root (from_node (edges g ! a)) (a' # p)"
    using pred_walk_same_shape [OF w sh] by simp
  have p': "paired (edges ?g')"
    using paired_push_flow [OF Cons.prems(2) a] by simp
  show ?case
    by (subst augment.simps) (simp add: Let_def nxt fr Cons.IH [OF w' p'])
qed

subsection \<open>Flow bounds along a path\<close>

lemma push_flow_wf_flow:
  assumes wf: "wf_flow es" and p: "paired es" and a: "a < length es"
    and b: "0 \<le> b" "b \<le> remaining_capacity (es ! a)"
  shows "wf_flow (push_flow es a b)"
proof -
  note r = paired_residual [OF p a]
  have "flow (push_flow es a b ! partner x) = - flow (push_flow es a b ! x) \<and>
        flow (push_flow es a b ! x) \<le> capacity (push_flow es a b ! x)"
    if x: "x < length es" for x
  proof -
    from p x have px: "partner x < length es" by (rule paired_partner_less)
    from wf x have old: "flow (es ! partner x) = - flow (es ! x)" "flow (es ! x) \<le> capacity (es ! x)"
      by (simp_all add: wf_flow_def)
    have e1: "partner x = a \<longleftrightarrow> x = partner a" by auto
    have e2: "partner x = partner a \<longleftrightarrow> x = a" by (metis partner_partner)
    have cap: "capacity (push_flow es a b ! x) = capacity (es ! x)"
      using push_flow_same_shape [OF a r, of b] x by (simp add: same_shape_def)
    show ?thesis
      using old b
      by (auto simp: push_flow_flow [OF a r x] push_flow_flow [OF a r px] e1 e2 cap
          remaining_capacity_def)
  qed
  then show ?thesis by (simp add: wf_flow_def)
qed

lemma push_flow_remaining:
  assumes p: "paired es" and a: "a < length es" and x: "x < length es" "x \<noteq> a" and b: "0 \<le> b"
  shows "remaining_capacity (es ! x) \<le> remaining_capacity (push_flow es a b ! x)"
proof -
  note r = paired_residual [OF p a]
  have "capacity (push_flow es a b ! x) = capacity (es ! x)"
    using push_flow_same_shape [OF a r, of b] x by (simp add: same_shape_def)
  then show ?thesis
    using b x by (simp add: remaining_capacity_def push_flow_flow [OF a r x(1)])
qed

lemma push_path_wf_flow:
  "wf_flow es \<Longrightarrow> paired es \<Longrightarrow> distinct p \<Longrightarrow>
   \<forall>a \<in> set p. a < length es \<and> b \<le> remaining_capacity (es ! a) \<Longrightarrow> 0 \<le> b \<Longrightarrow>
   wf_flow (push_path es p b)"
proof (induction p arbitrary: es)
  case Nil
  then show ?case by simp
next
  case (Cons a p)
  from Cons.prems have a: "a < length es" "b \<le> remaining_capacity (es ! a)" by auto
  have "wf_flow (push_path (push_flow es a b) p b)"
  proof (rule Cons.IH)
    show "wf_flow (push_flow es a b)"
      using Cons.prems a by (intro push_flow_wf_flow)
    show "paired (push_flow es a b)"
      using Cons.prems a by (intro paired_push_flow)
    show "distinct p" using Cons.prems by simp
    show "0 \<le> b" by fact
    show "\<forall>x\<in>set p. x < length (push_flow es a b) \<and>
              b \<le> remaining_capacity (push_flow es a b ! x)"
    proof
      fix x assume x: "x \<in> set p"
      with Cons.prems have xl: "x < length es" "b \<le> remaining_capacity (es ! x)" "x \<noteq> a"
        by auto
      from push_flow_remaining [OF Cons.prems(2) a(1) xl(1) xl(3) Cons.prems(5)] xl
      show "x < length (push_flow es a b) \<and> b \<le> remaining_capacity (push_flow es a b ! x)"
        by simp
    qed
  qed
  then show ?case by simp
qed

subsection \<open>The net flow out of a node\<close>

lemma net_flow_push_flow:
  assumes p: "paired es" and a: "a < length es"
  shows "net_flow (push_flow es a b) v =
     net_flow es v + (if from_node (es ! a) = v then b else 0)
       - (if to_node (es ! a) = v then b else 0)"
proof -
  note r = paired_residual [OF p a]
  note pa = paired_partner_less [OF p a]
  from p a have fp: "from_node (es ! partner a) = to_node (es ! a)"
    by (simp add: paired_def)
  have fr: "from_node (push_flow es a b ! x) = from_node (es ! x)" if "x < length es" for x
    using push_flow_same_shape [OF a r, of b] that by (simp add: same_shape_def)
  have "net_flow (push_flow es a b) v =
        (\<Sum>x<length es. (if from_node (es ! x) = v then flow (es ! x) else 0)
           + (if x = a then (if from_node (es ! a) = v then b else 0) else 0)
           - (if x = partner a then (if from_node (es ! partner a) = v then b else 0) else 0))"
    unfolding net_flow_def push_flow_length
    by (rule sum.cong) (auto simp: fr push_flow_flow [OF a r])
  also have "\<dots> = net_flow es v + (if from_node (es ! a) = v then b else 0)
       - (if from_node (es ! partner a) = v then b else 0)"
    using a pa by (simp add: sum.distrib sum_subtractf net_flow_def)
  finally show ?thesis by (simp add: fp)
qed

lemma net_flow_push_path:
  "pred_walk es previous root v p \<Longrightarrow> paired es \<Longrightarrow>
   net_flow (push_path es p b) x =
     net_flow es x + (if x = root then b else 0) - (if x = v then b else 0)"
proof (induction p arbitrary: es v)
  case Nil
  then have "v = root" by (auto elim: pred_walk_NilE)
  then show ?case by simp
next
  case (Cons a p)
  from Cons.prems have a: "a < length es" and t: "to_node (es ! a) = v"
    and w: "pred_walk es previous root (from_node (es ! a)) p"
    by (auto elim: pred_walk_ConsE)
  note sh = push_flow_same_shape [OF a paired_residual [OF Cons.prems(2) a], of b]
  have "net_flow (push_path (push_flow es a b) p b) x =
        net_flow (push_flow es a b) x + (if x = root then b else 0)
          - (if x = from_node (es ! a) then b else 0)"
    by (rule Cons.IH [OF pred_walk_same_shape [OF w sh] paired_push_flow [OF Cons.prems(2) a]])
  then show ?case
    by (simp add: net_flow_push_flow [OF Cons.prems(2) a] t)
qed

subsection \<open>Augmenting paths\<close>

lemma mem_adjacent: "a \<in> set (adjacent es u) \<longleftrightarrow> a < length es \<and> from_node (es ! a) = u"
  by (auto simp: adjacent_def)

lemma node_nat_eq: "node g v \<Longrightarrow> node g w \<Longrightarrow> nat v = nat w \<longleftrightarrow> v = w"
  by (auto simp: node_def)

lemma node_nat_less: "node g v \<Longrightarrow> nat v < nat (num_nodes g)"
  by (auto simp: node_def)

lemma wf_shape_adj: "wf_shape g \<Longrightarrow> node g u \<Longrightarrow> py_get (graph g) u = Some (adjacent (edges g) u)"
  by (simp add: wf_shape_def node_def py_get_node)

lemma wf_shape_to_node: "wf_shape g \<Longrightarrow> a < length (edges g) \<Longrightarrow> node g (to_node (edges g ! a))"
  by (simp add: wf_shape_def)

lemma wf_shape_from_node: "wf_shape g \<Longrightarrow> a < length (edges g) \<Longrightarrow> node g (from_node (edges g ! a))"
  by (simp add: wf_shape_def)

lemma aug_path_step:
  "wf_shape g \<Longrightarrow> node g u \<Longrightarrow>
   aug_path g u (a # p) v \<longleftrightarrow>
     a < length (edges g) \<and> from_node (edges g ! a) = u \<and>
     0 < remaining_capacity (edges g ! a) \<and> aug_path g (to_node (edges g ! a)) p v"
  by (auto simp: wf_shape_adj mem_adjacent)

declare aug_path.simps(2) [simp del]

lemma aug_path_snoc:
  "wf_shape g \<Longrightarrow> node g u \<Longrightarrow>
   aug_path g u (p @ [a]) v \<longleftrightarrow>
     aug_path g u p (from_node (edges g ! a)) \<and> a < length (edges g) \<and>
     0 < remaining_capacity (edges g ! a) \<and> to_node (edges g ! a) = v"
proof (induction p arbitrary: u)
  case Nil
  then show ?case by (auto simp: aug_path_step)
next
  case (Cons x p)
  show ?case
  proof (cases "x < length (edges g)")
    case True
    with Cons.prems have "node g (to_node (edges g ! x))" by (simp add: wf_shape_to_node)
    from Cons.IH [OF Cons.prems(1) this] Cons.prems show ?thesis
      by (auto simp: aug_path_step)
  next
    case False
    with Cons.prems show ?thesis by (auto simp: aug_path_step)
  qed
qed

lemma pred_walk_root_None: "pred_walk es previous root v p \<Longrightarrow> py_get previous root = Some None"
  by (induction rule: pred_walk.induct) auto

lemma pred_walk_root_Nil: "pred_walk es previous root root p \<Longrightarrow> p = []"
proof (cases p)
  case Nil
  then show ?thesis by simp
next
  case (Cons a p')
  assume w: "pred_walk es previous root root p"
  with Cons have "py_get previous root = Some (Some a)" by (auto elim: pred_walk_ConsE)
  with pred_walk_root_None [OF w] show ?thesis by simp
qed

subsection \<open>The invariant of the search\<close>

text \<open>An edge that is saturated, or leads to a visited node, is passed over.\<close>

lemma bfs_inv_skip:
  assumes inv: "bfs_inv g P u (a # todo) q vis prev"
    and skip: "\<not> 0 < remaining_capacity (edges g ! a) \<or> vis ! nat (to_node (edges g ! a))"
  shows "bfs_inv g P u todo q vis prev"
proof -
  from inv have c: "inv_closed g u (a # todo) q vis" by (simp add: bfs_inv_def)
  have "inv_closed g u todo q vis"
    unfolding inv_closed_def
  proof (intro conjI allI impI)
    show "set todo \<subseteq> set (adjacent (edges g) u)"
      using c by (auto simp: inv_closed_def)
  next
    fix x
    assume x: "x < length (edges g)" "0 < remaining_capacity (edges g ! x)"
      "vis ! nat (from_node (edges g ! x))" "from_node (edges g ! x) \<notin> set q"
      "from_node (edges g ! x) = u \<longrightarrow> x \<notin> set todo"
    show "vis ! nat (to_node (edges g ! x))"
    proof (cases "x = a")
      case True
      with skip x show ?thesis by simp
    next
      case False
      with c x show ?thesis by (simp add: inv_closed_def)
    qed
  qed
  with inv show ?thesis by (simp add: bfs_inv_def)
qed

text \<open>An edge with remaining capacity into an unvisited node: the node is marked, the
  edge becomes its predecessor and the node joins the queue.\<close>

lemma bfs_inv_visit:
  assumes wf: "wf_shape g"
    and inv: "bfs_inv g P u (a # todo) q vis prev"
    and rc: "0 < remaining_capacity (edges g ! a)"
    and nv: "\<not> vis ! nat (to_node (edges g ! a))"
    and w_def: "w = to_node (edges g ! a)"
  shows "bfs_inv g (P(w := a # P u)) u todo (q @ [w]) (vis[nat w := True])
           (prev[nat w := Some a])"
proof -
  let ?E = "edges g"
  let ?P = "P(w := a # P u)"
  let ?vis = "vis[nat w := True]"
  let ?prev = "prev[nat w := Some a]"
  from inv have t: "inv_tree g P vis prev" and l: "inv_levels g P u q vis"
    and c: "inv_closed g u (a # todo) q vis"
    by (simp_all add: bfs_inv_def)
  from c have a: "a < length ?E" and fa: "from_node (?E ! a) = u"
    by (simp_all add: inv_closed_def mem_adjacent)
  from wf a have w: "node g w" by (simp add: w_def wf_shape_to_node)
  from l have u: "node g u" "vis ! nat u" by (simp_all add: inv_levels_def)
  from nv u have wu: "w \<noteq> u" by (auto simp: w_def)
  from t have lens: "length vis = nat (num_nodes g)" "length prev = nat (num_nodes g)"
    and vs: "vis ! nat (source g)"
    by (simp_all add: inv_tree_def)
  from wf have src: "node g (source g)" by (simp add: wf_shape_def)
  from nv vs have ws: "w \<noteq> source g" by (auto simp: w_def)
  from l have qv: "\<forall>v \<in> set q. node g v \<and> vis ! nat v" by (simp add: inv_levels_def)
  with nv have wq: "w \<notin> set q" by (auto simp: w_def)
  have vis': "?vis ! nat v \<longleftrightarrow> v = w \<or> vis ! nat v" if "node g v" for v
  proof -
    from that w lens have "nat v < length vis" "nat w < length vis" "nat v = nat w \<longleftrightarrow> v = w"
      by (auto simp: node_def)
    then show ?thesis by (auto simp: nth_list_update)
  qed
  from t w nv have prevw: "prev ! nat w = None"
    by (simp add: inv_tree_def w_def)
  have root: "py_index prev (source g) \<noteq> Some (nat w)"
    using src w ws lens by (auto simp: py_index_def node_def)
  have T: "inv_tree g ?P ?vis ?prev"
    unfolding inv_tree_def
  proof (intro conjI allI impI)
    show "length ?vis = nat (num_nodes g)" "length ?prev = nat (num_nodes g)"
      using lens by simp_all
    show "?vis ! nat (source g)" using vis' [OF src] vs by simp
  next
    fix v assume v: "node g v" "?vis ! nat v"
    from t u have pu: "pred_walk ?E prev (source g) u (P u)"
      and au: "aug_path g (source g) (rev (P u)) u"
      by (simp_all add: inv_tree_def)
    show "pred_walk ?E ?prev (source g) v (?P v)"
    proof (cases "v = w")
      case True
      have "pred_walk ?E ?prev (source g) (from_node (?E ! a)) (P u)"
        unfolding fa using pu prevw root by (rule pred_walk_update)
      moreover have "py_get ?prev w = Some (Some a)"
        using w lens by (simp add: py_get_node node_def)
      ultimately have "pred_walk ?E ?prev (source g) w (a # P u)"
        using a w_def by (intro pred_walk.step) simp_all
      with True show ?thesis by simp
    next
      case False
      with v vis' have "vis ! nat v" by simp
      with t v have "pred_walk ?E prev (source g) v (P v)" by (simp add: inv_tree_def)
      then have "pred_walk ?E ?prev (source g) v (P v)"
        using prevw root by (rule pred_walk_update)
      with False show ?thesis by simp
    qed
    show "aug_path g (source g) (rev (?P v)) v"
    proof (cases "v = w")
      case True
      have "aug_path g (source g) (rev (P u) @ [a]) w"
        using au a rc fa w_def by (simp add: aug_path_snoc [OF wf src])
      with True show ?thesis by simp
    next
      case False
      with v vis' have "vis ! nat v" by simp
      with t v False show ?thesis by (simp add: inv_tree_def)
    qed
  next
    fix v assume v: "node g v" "\<not> ?vis ! nat v"
    with vis' have "v \<noteq> w" "\<not> vis ! nat v" by auto
    with t v have "prev ! nat v = None" by (simp add: inv_tree_def)
    moreover from \<open>v \<noteq> w\<close> v w have "nat v \<noteq> nat w" by (auto simp: node_def)
    ultimately show "?prev ! nat v = None" by simp
  qed
  have lev_old: "length (P v) \<le> Suc (length (P u))" if "node g v" "vis ! nat v" for v
  proof -
    consider "v = u" | "v \<in> set q" | "v \<noteq> u" "v \<notin> set q" by blast
    then show ?thesis
    proof cases
      case 1 then show ?thesis by simp
    next
      case 2 with l show ?thesis by (simp add: inv_levels_def)
    next
      case 3
      with l that have "length (P v) \<le> length (P u)" by (simp add: inv_levels_def)
      then show ?thesis by simp
    qed
  qed
  have L1: "node g u \<and> ?vis ! nat u"
    using vis' [OF u(1)] u by simp
  have L2: "\<forall>v \<in> set (q @ [w]). node g v \<and> ?vis ! nat v"
    using qv w vis' by auto
  have L3: "\<forall>v \<in> set (q @ [w]).
      length (?P u) \<le> length (?P v) \<and> length (?P v) \<le> Suc (length (?P u))"
    using l wu wq by (auto simp: inv_levels_def)
  have L4: "sorted (map (\<lambda>v. length (?P v)) (q @ [w]))"
  proof -
    have eq: "map (\<lambda>v. length (?P v)) q = map (\<lambda>v. length (P v)) q"
      using wq by (intro map_cong) auto
    from l have "sorted (map (\<lambda>v. length (P v)) q)"
      and "\<forall>v \<in> set q. length (P v) \<le> Suc (length (P u))"
      by (simp_all add: inv_levels_def)
    then have "sorted (map (\<lambda>v. length (P v)) q @ [Suc (length (P u))])"
      by (auto simp: sorted_append)
    then show ?thesis
      unfolding map_append eq by simp
  qed
  have L5: "\<forall>v. node g v \<longrightarrow> ?vis ! nat v \<longrightarrow> v \<noteq> u \<longrightarrow> v \<notin> set (q @ [w]) \<longrightarrow>
      length (?P v) \<le> length (?P u)"
  proof (intro allI impI)
    fix v assume v: "node g v" "?vis ! nat v" "v \<noteq> u" "v \<notin> set (q @ [w])"
    then have "v \<noteq> w" "vis ! nat v" "v \<notin> set q" using vis' by auto
    with l v wu show "length (?P v) \<le> length (?P u)"
      by (simp add: inv_levels_def)
  qed
  have L6: "\<forall>x < length ?E. 0 < remaining_capacity (?E ! x) \<longrightarrow>
        ?vis ! nat (from_node (?E ! x)) \<longrightarrow> ?vis ! nat (to_node (?E ! x)) \<longrightarrow>
        length (?P (to_node (?E ! x))) \<le> Suc (length (?P (from_node (?E ! x))))"
  proof (intro allI impI)
    fix x
    assume x: "x < length ?E" "0 < remaining_capacity (?E ! x)"
      "?vis ! nat (from_node (?E ! x))" "?vis ! nat (to_node (?E ! x))"
    let ?f = "from_node (?E ! x)" and ?t = "to_node (?E ! x)"
    from wf x have nf: "node g ?f" and nt: "node g ?t"
      by (simp_all add: wf_shape_from_node wf_shape_to_node)
    show "length (?P ?t) \<le> Suc (length (?P ?f))"
    proof (cases "?f = w")
      case fw: True
      show ?thesis
      proof (cases "?t = w")
        case True with fw show ?thesis by simp
      next
        case False
        with x nt vis' have "vis ! nat ?t" by simp
        from lev_old [OF nt this] fw False show ?thesis by simp
      qed
    next
      case fw: False
      with x nf vis' have vf: "vis ! nat ?f" by simp
      show ?thesis
      proof (cases "?t = w")
        case True
        have "length (P u) \<le> length (P ?f)"
        proof -
          consider "?f = u" | "?f \<in> set q" | "?f \<noteq> u" "?f \<notin> set q" by blast
          then show ?thesis
          proof cases
            case 1 then show ?thesis by simp
          next
            case 2 with l show ?thesis by (simp add: inv_levels_def)
          next
            case 3
            with c x vf have "vis ! nat ?t" by (simp add: inv_closed_def)
            with True nv show ?thesis by (simp add: w_def)
          qed
        qed
        with True fw show ?thesis by simp
      next
        case False
        with x nt vis' have "vis ! nat ?t" by simp
        with l x vf have "length (P ?t) \<le> Suc (length (P ?f))"
          by (simp add: inv_levels_def)
        with False fw show ?thesis by simp
      qed
    qed
  qed
  have L: "inv_levels g ?P u (q @ [w]) ?vis"
    unfolding inv_levels_def using L1 L2 L3 L4 L5 L6 by blast
  have C: "inv_closed g u todo (q @ [w]) ?vis"
    unfolding inv_closed_def
  proof (intro conjI allI impI)
    show "set todo \<subseteq> set (adjacent ?E u)"
      using c by (auto simp: inv_closed_def)
  next
    fix x
    assume x: "x < length ?E" "0 < remaining_capacity (?E ! x)"
      "?vis ! nat (from_node (?E ! x))" "from_node (?E ! x) \<notin> set (q @ [w])"
      "from_node (?E ! x) = u \<longrightarrow> x \<notin> set todo"
    let ?f = "from_node (?E ! x)" and ?t = "to_node (?E ! x)"
    from wf x have nf: "node g ?f" and nt: "node g ?t"
      by (simp_all add: wf_shape_from_node wf_shape_to_node)
    from x have "?f \<noteq> w" "?f \<notin> set q" by auto
    with x nf vis' have vf: "vis ! nat ?f" by simp
    show "?vis ! nat ?t"
    proof (cases "x = a")
      case True
      with vis' [OF nt] show ?thesis by (simp add: w_def)
    next
      case False
      with c x vf \<open>?f \<notin> set q\<close> have "vis ! nat ?t" by (simp add: inv_closed_def)
      with vis' [OF nt] show ?thesis by simp
    qed
  qed
  from T L C show ?thesis by (simp add: bfs_inv_def)
qed

lemma visit_edges_inv:
  "wf_shape g \<Longrightarrow> bfs_inv g P u todo q vis prev \<Longrightarrow>
   \<exists>P' vis' prev' q'.
     visit_edges (edges g) todo vis prev q = Inr (vis', prev', q') \<and>
     bfs_inv g P' u [] q' vis' prev'"
proof (induction todo arbitrary: P q vis prev)
  case Nil
  then show ?case by auto
next
  case (Cons a todo)
  let ?e = "edges g ! a"
  from Cons.prems have t: "inv_tree g P vis prev" and c: "inv_closed g u (a # todo) q vis"
    by (simp_all add: bfs_inv_def)
  from c have a: "a < length (edges g)" by (simp add: inv_closed_def mem_adjacent)
  with Cons.prems have w: "node g (to_node ?e)" by (simp add: wf_shape_to_node)
  from t have lens: "length vis = nat (num_nodes g)" "length prev = nat (num_nodes g)"
    by (simp_all add: inv_tree_def)
  from w lens have get: "py_get vis (to_node ?e) = Some (vis ! nat (to_node ?e))"
    and set1: "py_set vis (to_node ?e) True = Some (vis[nat (to_node ?e) := True])"
    and set2: "py_set prev (to_node ?e) (Some a) = Some (prev[nat (to_node ?e) := Some a])"
    by (simp_all add: py_get_node py_set_node node_def)
  show ?case
  proof (cases "0 < remaining_capacity ?e \<and> \<not> vis ! nat (to_node ?e)")
    case True
    then have rc: "0 < remaining_capacity ?e" and nv: "\<not> vis ! nat (to_node ?e)"
      by simp_all
    have "bfs_inv g (P(to_node ?e := a # P u)) u todo (q @ [to_node ?e])
        (vis[nat (to_node ?e) := True]) (prev[nat (to_node ?e) := Some a])"
      by (rule bfs_inv_visit [OF Cons.prems rc nv refl])
    from Cons.IH [OF Cons.prems(1) this] True get set1 set2 show ?thesis
      by (simp add: Let_def)
  next
    case False
    then have "\<not> 0 < remaining_capacity ?e \<or> vis ! nat (to_node ?e)" by simp
    with Cons.prems(2) have "bfs_inv g P u todo q vis prev"
      by (rule bfs_inv_skip)
    from Cons.IH [OF Cons.prems(1) this] False get show ?thesis
      by (auto simp: Let_def)
  qed
qed

lemma inv_tree_source_Nil:
  assumes "wf_shape g" "inv_tree g P vis prev"
  shows "P (source g) = []"
proof -
  from assms have "pred_walk (edges g) prev (source g) (source g) (P (source g))"
    by (simp add: inv_tree_def wf_shape_def)
  then show ?thesis by (rule pred_walk_root_Nil)
qed

text \<open>No path is shorter than a recorded one, and a path that leaves the visited nodes
  is at least as long as the recorded path of the node in work.\<close>

lemma bfs_inv_shortest:
  assumes wf: "wf_shape g" and inv: "bfs_inv g P u todo q vis prev"
  shows "aug_path g (source g) p v \<Longrightarrow>
     (vis ! nat v \<and> length (P v) \<le> length p) \<or>
     (length (P u) \<le> length p \<and> (todo \<noteq> [] \<or> q \<noteq> []))"
proof (induction p arbitrary: v rule: rev_induct)
  case Nil
  then have "v = source g" by simp
  moreover from inv have t: "inv_tree g P vis prev" by (simp add: bfs_inv_def)
  moreover from t have "vis ! nat (source g)" by (simp add: inv_tree_def)
  ultimately show ?case
    using inv_tree_source_Nil [OF wf t] by simp
next
  case (snoc a p)
  let ?E = "edges g"
  from wf have src: "node g (source g)" by (simp add: wf_shape_def)
  from snoc.prems have px: "aug_path g (source g) p (from_node (?E ! a))"
    and a: "a < length ?E" "0 < remaining_capacity (?E ! a)" "to_node (?E ! a) = v"
    by (simp_all add: aug_path_snoc [OF wf src])
  let ?x = "from_node (?E ! a)"
  from inv have l: "inv_levels g P u q vis" and c: "inv_closed g u todo q vis"
    by (simp_all add: bfs_inv_def)
  from snoc.IH [OF px] show ?case
  proof
    assume x: "vis ! nat ?x \<and> length (P ?x) \<le> length p"
    show ?thesis
    proof (cases "vis ! nat v")
      case True
      with l a x have "length (P v) \<le> Suc (length (P ?x))"
        by (auto simp: inv_levels_def)
      with True x show ?thesis by simp
    next
      case False
      with c a x have open_x: "?x \<in> set q \<or> (?x = u \<and> a \<in> set todo)"
        by (auto simp: inv_closed_def)
      then have "length (P u) \<le> length (P ?x)"
        using l by (auto simp: inv_levels_def)
      moreover from open_x have "todo \<noteq> [] \<or> q \<noteq> []" by auto
      ultimately show ?thesis using x by simp
    qed
  next
    assume "length (P u) \<le> length p \<and> (todo \<noteq> [] \<or> q \<noteq> [])"
    then show ?thesis by simp
  qed
qed

lemma bfs_inv_post:
  assumes wf: "wf_shape g" and inv: "bfs_inv g P u todo q vis prev"
    and stopped: "u = sink g \<or> (todo = [] \<and> q = [])"
  shows "search_post g prev"
proof -
  let ?E = "edges g"
  from inv have t: "inv_tree g P vis prev" and l: "inv_levels g P u q vis"
    by (simp_all add: bfs_inv_def)
  from wf have snk: "node g (sink g)" and ne: "source g \<noteq> sink g"
    by (simp_all add: wf_shape_def)
  from t have len: "length prev = nat (num_nodes g)" by (simp add: inv_tree_def)
  from snk len have get: "py_get prev (sink g) = Some (prev ! nat (sink g))"
    by (simp add: py_get_node node_def)
  show ?thesis
  proof (cases "vis ! nat (sink g)")
    case True
    with t snk have w: "pred_walk ?E prev (source g) (sink g) (P (sink g))"
      and ap: "aug_path g (source g) (rev (P (sink g))) (sink g)"
      by (simp_all add: inv_tree_def)
    from w ne obtain a p where P: "P (sink g) = a # p"
      by (cases "P (sink g)") (auto elim: pred_walk_NilE)
    with w get have pa: "prev ! nat (sink g) = Some a"
      by (auto elim: pred_walk_ConsE)
    have "length (P (sink g)) \<le> length p'" if "aug_path g (source g) p' (sink g)" for p'
      using bfs_inv_shortest [OF wf inv that] stopped True l
      by (auto simp: inv_levels_def)
    with w ap P pa len show ?thesis
      by (auto simp: search_post_def)
  next
    case False
    with t snk have pn: "prev ! nat (sink g) = None" by (simp add: inv_tree_def)
    from False l stopped have fin: "todo = [] \<and> q = []" by (auto simp: inv_levels_def)
    have "\<not> aug_path g (source g) p' (sink g)" for p'
    proof
      assume "aug_path g (source g) p' (sink g)"
      from bfs_inv_shortest [OF wf inv this] fin False show False by simp
    qed
    with pn len show ?thesis by (simp add: search_post_def)
  qed
qed

lemma bfs_inv_next:
  assumes wf: "wf_shape g" and inv: "bfs_inv g P u [] (u' # q) vis prev"
  shows "bfs_inv g P u' (adjacent (edges g) u') q vis prev"
proof -
  from inv have t: "inv_tree g P vis prev" and l: "inv_levels g P u (u' # q) vis"
    and c: "inv_closed g u [] (u' # q) vis"
    by (simp_all add: bfs_inv_def)
  from l have lu: "length (P u) \<le> length (P u')" by (simp add: inv_levels_def)
  have "inv_levels g P u' q vis"
    unfolding inv_levels_def
  proof (intro conjI)
    from l show "node g u'" "vis ! nat u'" "\<forall>v\<in>set q. node g v \<and> vis ! nat v"
      by (simp_all add: inv_levels_def)
    from l show "sorted (map (\<lambda>v. length (P v)) q)" by (simp add: inv_levels_def)
    from l lu show "\<forall>v\<in>set q. length (P u') \<le> length (P v) \<and> length (P v) \<le> Suc (length (P u'))"
      by (auto simp: inv_levels_def)
    show "\<forall>v. node g v \<longrightarrow> vis ! nat v \<longrightarrow> v \<noteq> u' \<longrightarrow> v \<notin> set q \<longrightarrow> length (P v) \<le> length (P u')"
    proof (intro allI impI)
      fix v assume v: "node g v" "vis ! nat v" "v \<noteq> u'" "v \<notin> set q"
      show "length (P v) \<le> length (P u')"
      proof (cases "v = u")
        case True with lu show ?thesis by simp
      next
        case False
        with l v have "length (P v) \<le> length (P u)" by (simp add: inv_levels_def)
        with lu show ?thesis by simp
      qed
    qed
    from l show "\<forall>a<length (edges g). 0 < remaining_capacity (edges g ! a) \<longrightarrow>
        vis ! nat (from_node (edges g ! a)) \<longrightarrow> vis ! nat (to_node (edges g ! a)) \<longrightarrow>
        length (P (to_node (edges g ! a))) \<le> Suc (length (P (from_node (edges g ! a))))"
      by (simp add: inv_levels_def)
  qed
  moreover have "inv_closed g u' (adjacent (edges g) u') q vis"
    unfolding inv_closed_def
  proof (intro conjI allI impI)
    show "set (adjacent (edges g) u') \<subseteq> set (adjacent (edges g) u')" by simp
  next
    fix a
    assume a: "a < length (edges g)" "0 < remaining_capacity (edges g ! a)"
      "vis ! nat (from_node (edges g ! a))" "from_node (edges g ! a) \<notin> set q"
      "from_node (edges g ! a) = u' \<longrightarrow> a \<notin> set (adjacent (edges g) u')"
    then have "from_node (edges g ! a) \<noteq> u'" by (auto simp: mem_adjacent)
    with c a show "vis ! nat (to_node (edges g ! a))"
      by (simp add: inv_closed_def)
  qed
  ultimately show ?thesis using t by (simp add: bfs_inv_def)
qed

lemma bfs_loop_post:
  "wf_shape g \<Longrightarrow> bfs_inv g P u (adjacent (edges g) u) q vis prev \<Longrightarrow>
   \<exists>vis' prev'. bfs_loop g (u # q) vis prev = Inr (vis', prev') \<and> search_post g prev'"
proof (induction "unvisited vis + length q" arbitrary: P u q vis prev rule: less_induct)
  case less
  note wf = less.prems(1) and inv = less.prems(2)
  show ?case
  proof (cases "u = sink g")
    case True
    with bfs_inv_post [OF wf inv] show ?thesis by simp
  next
    case False
    from inv have u: "node g u" by (simp add: bfs_inv_def inv_levels_def)
    note adj = wf_shape_adj [OF wf u]
    from visit_edges_inv [OF wf inv] obtain P' vis' prev' q' where
      ve: "visit_edges (edges g) (adjacent (edges g) u) vis prev q = Inr (vis', prev', q')"
      and inv': "bfs_inv g P' u [] q' vis' prev'"
      by blast
    from visit_edges_measure [OF ve] have m: "unvisited vis' + length q' = unvisited vis + length q" .
    show ?thesis
    proof (cases q')
      case Nil
      with bfs_inv_post [OF wf inv'] False adj ve show ?thesis by simp
    next
      case (Cons u' q'')
      with inv' have "bfs_inv g P' u' (adjacent (edges g) u') q'' vis' prev'"
        by (simp add: bfs_inv_next [OF wf])
      moreover from m Cons have "unvisited vis' + length q'' < unvisited vis + length q"
        by simp
      ultimately obtain vis2 prev2 where
        "bfs_loop g (u' # q'') vis' prev' = Inr (vis2, prev2)" "search_post g prev2"
        using less.hyps wf by blast
      with False adj ve Cons show ?thesis by simp
    qed
  qed
qed

lemma bfs_inv_init:
  assumes wf: "wf_shape g"
  shows "bfs_inv g (\<lambda>v. []) (source g) (adjacent (edges g) (source g)) []
           ((replicate (nat (num_nodes g)) False)[nat (source g) := True])
           (replicate (nat (num_nodes g)) None)"
proof -
  let ?vis = "(replicate (nat (num_nodes g)) False)[nat (source g) := True]"
  let ?prev = "replicate (nat (num_nodes g)) None :: nat option list"
  from wf have src: "node g (source g)" by (simp add: wf_shape_def)
  have vis: "?vis ! nat v \<longleftrightarrow> v = source g" if "node g v" for v
  proof -
    from that src have "nat v < nat (num_nodes g)" "nat (source g) < nat (num_nodes g)"
      "nat v = nat (source g) \<longleftrightarrow> v = source g"
      by (auto simp: node_def)
    then show ?thesis by (auto simp: nth_list_update)
  qed
  have prev: "?prev ! nat v = None" if "node g v" for v
    using that by (simp add: node_def)
  have "py_get ?prev (source g) = Some None"
    using src by (simp add: py_get_node node_def)
  then have "pred_walk (edges g) ?prev (source g) (source g) []"
    by (rule pred_walk.stop)
  then have "inv_tree g (\<lambda>v. []) ?vis ?prev"
    using vis prev src by (auto simp: inv_tree_def)
  moreover have "inv_levels g (\<lambda>v. []) (source g) [] ?vis"
    using vis src by (simp add: inv_levels_def)
  moreover have "inv_closed g (source g) (adjacent (edges g) (source g)) [] ?vis"
    unfolding inv_closed_def
  proof (intro conjI allI impI)
    show "set (adjacent (edges g) (source g)) \<subseteq> set (adjacent (edges g) (source g))" by simp
  next
    fix a
    assume a: "a < length (edges g)" "?vis ! nat (from_node (edges g ! a))"
      "from_node (edges g ! a) = source g \<longrightarrow> a \<notin> set (adjacent (edges g) (source g))"
    from wf a(1) have "node g (from_node (edges g ! a))" by (rule wf_shape_from_node)
    with vis a have "from_node (edges g ! a) = source g" by simp
    with a show "?vis ! nat (to_node (edges g ! a))" by (simp add: mem_adjacent)
  qed
  ultimately show ?thesis by (simp add: bfs_inv_def)
qed

lemma bfs_search_post:
  assumes wf: "wf_shape g"
  shows "\<exists>vis prev. bfs_search g = Inr (vis, prev) \<and> search_post g prev"
proof -
  from wf have "node g (source g)" by (simp add: wf_shape_def)
  then have "py_set (replicate (nat (num_nodes g)) False) (source g) True =
      Some ((replicate (nat (num_nodes g)) False)[nat (source g) := True])"
    by (simp add: py_set_node node_def)
  with bfs_loop_post [OF wf bfs_inv_init [OF wf]] show ?thesis
    by (simp add: bfs_search_def)
qed

subsection \<open>One call of the search\<close>

lemma aug_path_positive:
  "wf_shape g \<Longrightarrow> node g u \<Longrightarrow> aug_path g u p v \<Longrightarrow>
   \<forall>a \<in> set p. a < length (edges g) \<and> 0 < remaining_capacity (edges g ! a)"
proof (induction p arbitrary: u)
  case Nil
  then show ?case by simp
next
  case (Cons a p)
  from Cons.prems have a: "a < length (edges g)" "0 < remaining_capacity (edges g ! a)"
    and rest: "aug_path g (to_node (edges g ! a)) p v"
    by (simp_all add: aug_path_step)
  from Cons.prems(1) a(1) have "node g (to_node (edges g ! a))" by (rule wf_shape_to_node)
  from Cons.IH [OF Cons.prems(1) this rest] a show ?case by simp
qed

lemma same_network_refl [simp]: "same_network g g"
  by (simp add: same_network_def)

lemma same_network_trans: "same_network g g' \<Longrightarrow> same_network g' g'' \<Longrightarrow> same_network g g''"
  by (auto simp: same_network_def intro: same_shape_trans)

text \<open>The two outcomes of \<^verbatim>\<open>Graph.bfs\<close> on a well-formed network.\<close>

lemma bfs_cases:
  assumes wf: "wf_graph g"
  obtains
    (no_path) vis prev where
      "bfs_search g = Inr (vis, prev)" "py_get prev (sink g) = Some None"
      "\<forall>p. \<not> aug_path g (source g) p (sink g)"
      "bfs g = Some (Inr 0, g)"
  | (augmented) vis prev a p where
      "bfs_search g = Inr (vis, prev)" "py_get prev (sink g) = Some (Some a)"
      "pred_walk (edges g) prev (source g) (sink g) (a # p)"
      "aug_path g (source g) (rev (a # p)) (sink g)"
      "\<forall>p'. aug_path g (source g) p' (sink g) \<longrightarrow> length (a # p) \<le> length p'"
      "bfs g = Some (Inr (bottleneck_of g (a # p)),
         g\<lparr>edges := push_path (edges g) (a # p) (bottleneck_of g (a # p))\<rparr>)"
proof -
  from wf have ws: "wf_shape g" by (simp add: wf_graph_def)
  from bfs_search_post [OF ws] obtain vis prev where
    s: "bfs_search g = Inr (vis, prev)" and post: "search_post g prev"
    by blast
  from ws have snk: "node g (sink g)" by (simp add: wf_shape_def)
  with post have get: "py_get prev (sink g) = Some (prev ! nat (sink g))"
    by (simp add: search_post_def py_get_node node_def)
  show ?thesis
  proof (cases "prev ! nat (sink g)")
    case None
    with post have "\<forall>p. \<not> aug_path g (source g) p (sink g)"
      by (simp add: search_post_def)
    moreover from None s get have "bfs g = Some (Inr 0, g)"
      by (simp add: bfs_def)
    ultimately show ?thesis using s get None by (intro no_path) simp_all
  next
    case (Some a)
    with post obtain p where
      w: "pred_walk (edges g) prev (source g) (sink g) (a # p)"
      and ap: "aug_path g (source g) (rev (a # p)) (sink g)"
      and sh: "\<forall>p'. aug_path g (source g) p' (sink g) \<longrightarrow> length (a # p) \<le> length p'"
      by (auto simp: search_post_def)
    have b: "bottleneck g prev a None = Some (Inr (bottleneck_of g (a # p)))"
      using bottleneck_walk [OF w, of None]
      by (simp add: path_min_Min bottleneck_of_def)
    have "augment g prev a (bottleneck_of g (a # p)) =
        Some (Inr (), g\<lparr>edges := push_path (edges g) (a # p) (bottleneck_of g (a # p))\<rparr>)"
      using w wf_shape_paired [OF ws] by (rule augment_walk)
    with b s get Some have "bfs g = Some (Inr (bottleneck_of g (a # p)),
         g\<lparr>edges := push_path (edges g) (a # p) (bottleneck_of g (a # p))\<rparr>)"
      by (simp add: bfs_def)
    with s get Some w ap sh show ?thesis by (intro augmented) simp_all
  qed
qed

lemma bottleneck_of_positive:
  assumes "wf_shape g" "aug_path g (source g) p (sink g)" "p \<noteq> []"
  shows "0 < bottleneck_of g p"
proof -
  from assms(1) have "node g (source g)" by (simp add: wf_shape_def)
  from aug_path_positive [OF assms(1) this assms(2)] assms(3) show ?thesis
    by (simp add: bottleneck_of_def)
qed

lemma bottleneck_of_le: "a \<in> set p \<Longrightarrow> bottleneck_of g p \<le> remaining_capacity (edges g ! a)"
  by (simp add: bottleneck_of_def)

text \<open>What one call of \<^verbatim>\<open>Graph.bfs\<close> does to a well-formed network.\<close>

lemma bfs_wf:
  assumes wf: "wf_graph g"
  shows "\<exists>b g'. bfs g = Some (Inr b, g') \<and> 0 \<le> b \<and> wf_graph g' \<and> same_network g g' \<and>
     (b = 0 \<longrightarrow> g' = g \<and> (\<forall>p. \<not> aug_path g (source g) p (sink g))) \<and>
     (\<forall>x. net_flow (edges g') x =
        net_flow (edges g) x + (if x = source g then b else 0) - (if x = sink g then b else 0))"
  using wf
proof (cases rule: bfs_cases)
  case (no_path vis prev)
  with wf show ?thesis by simp
next
  case (augmented vis prev a p)
  let ?b = "bottleneck_of g (a # p)"
  let ?es = "push_path (edges g) (a # p) ?b"
  let ?g' = "g\<lparr>edges := ?es\<rparr>"
  from wf have ws: "wf_shape g" and wfl: "wf_flow (edges g)" by (simp_all add: wf_graph_def)
  note pr = wf_shape_paired [OF ws]
  from augmented(4) have "aug_path g (source g) (rev (a # p)) (sink g)" .
  from bottleneck_of_positive [OF ws this] have pos: "0 < ?b"
    by (simp add: bottleneck_of_def)
  note bound = pred_walk_bound [OF augmented(3)]
  have sh: "same_shape (edges g) ?es"
    using bound pr by (intro push_path_same_shape) (auto simp: paired_def)
  have "wf_shape ?g'" using ws sh by (rule wf_shape_same)
  moreover have "wf_flow ?es"
  proof (rule push_path_wf_flow [OF wfl pr pred_walk_distinct [OF augmented(3)]])
    show "\<forall>x\<in>set (a # p). x < length (edges g) \<and> ?b \<le> remaining_capacity (edges g ! x)"
      using bound bottleneck_of_le [of _ "a # p" g] by blast
    show "0 \<le> ?b" using pos by simp
  qed
  ultimately have "wf_graph ?g'" by (simp add: wf_graph_def)
  moreover have "same_network g ?g'" using sh by (simp add: same_network_def)
  moreover have "net_flow ?es x =
        net_flow (edges g) x + (if x = source g then ?b else 0) - (if x = sink g then ?b else 0)"
    for x
    using augmented(3) pr by (rule net_flow_push_path)
  ultimately show ?thesis using augmented(6) pos by simp
qed

subsection \<open>The solver ends\<close>

lemma solving_front: "solving g1 g' \<Longrightarrow> bfs g = Some (r, g1) \<Longrightarrow> solving g g'"
proof (induction rule: solving.induct)
  case start
  then show ?case by (auto intro: solving.intros)
next
  case (search g2 r' g3)
  then show ?case by (auto intro: solving.search)
qed

lemma solving_wf: "solving g g' \<Longrightarrow> wf_graph g \<Longrightarrow> wf_graph g' \<and> same_network g g'"
proof (induction rule: solving.induct)
  case start
  then show ?case by simp
next
  case (search g1 r g2)
  then have wf1: "wf_graph g1" and sn: "same_network g g1" by simp_all
  from bfs_wf [OF wf1] search.hyps(2) have "wf_graph g2" "same_network g1 g2" by auto
  with sn show ?case by (auto intro: same_network_trans)
qed

lemma cap_out_same_shape: "same_shape es es' \<Longrightarrow> cap_out es' v = cap_out es v"
  unfolding cap_out_def by (rule sum.cong) (auto simp: same_shape_def)

lemma net_flow_le_cap_out: "wf_flow es \<Longrightarrow> net_flow es v \<le> cap_out es v"
  unfolding net_flow_def cap_out_def by (rule sum_mono) (simp add: wf_flow_def)

text \<open>The loop of the solver ends: each search that finds a path adds at least 1 to the
  net flow out of the source, which the capacities out of the source bound.\<close>

lemma edmonds_karp_loop_total:
  "wf_graph g \<Longrightarrow> 0 < fv \<Longrightarrow>
   \<exists>v g'. edmonds_karp_loop g mf fv = Some (Inr v, g') \<and> mf \<le> v \<and>
     wf_graph g' \<and> same_network g g' \<and> solving g g' \<and>
     bfs g' = Some (Inr 0, g') \<and>
     (\<forall>p. \<not> aug_path g' (source g') p (sink g')) \<and>
     (\<forall>x. net_flow (edges g') x =
        net_flow (edges g) x + (if x = source g then v - mf else 0)
          - (if x = sink g then v - mf else 0))"
proof (induction "nat (cap_out (edges g) (source g) - net_flow (edges g) (source g))"
    arbitrary: g mf fv rule: less_induct)
  case less
  note wf = less.prems(1)
  from bfs_wf [OF wf] obtain b g1 where
    b: "bfs g = Some (Inr b, g1)" "0 \<le> b" and wf1: "wf_graph g1" and sn: "same_network g g1"
    and zero: "b = 0 \<longrightarrow> g1 = g \<and> (\<forall>p. \<not> aug_path g (source g) p (sink g))"
    and net: "\<forall>x. net_flow (edges g1) x =
        net_flow (edges g) x + (if x = source g then b else 0) - (if x = sink g then b else 0)"
    by blast
  have unfold: "edmonds_karp_loop g mf fv = edmonds_karp_loop g1 (mf + b) b"
    using less.prems(2) b(1) by (subst edmonds_karp_loop.simps) simp
  show ?case
  proof (cases "b = 0")
    case True
    with zero have "g1 = g" and "\<forall>p. \<not> aug_path g (source g) p (sink g)" by simp_all
    moreover from True have "edmonds_karp_loop g1 (mf + b) b = Some (Inr mf, g1)"
      by (subst edmonds_karp_loop.simps) simp
    ultimately show ?thesis
      using unfold wf b True by (auto intro: solving.start)
  next
    case False
    with b have pos: "0 < b" by simp
    from wf have ne: "source g \<noteq> sink g" by (simp add: wf_graph_def wf_shape_def)
    from sn have same: "source g1 = source g" "sink g1 = sink g"
      "same_shape (edges g) (edges g1)"
      by (simp_all add: same_network_def)
    from net ne have n1: "net_flow (edges g1) (source g) = net_flow (edges g) (source g) + b"
      by simp
    from wf1 have "net_flow (edges g1) (source g) \<le> cap_out (edges g1) (source g)"
      by (simp add: wf_graph_def net_flow_le_cap_out)
    with n1 pos same have dec:
      "nat (cap_out (edges g1) (source g1) - net_flow (edges g1) (source g1))
       < nat (cap_out (edges g) (source g) - net_flow (edges g) (source g))"
      by (simp add: cap_out_same_shape)
    from less.hyps [OF dec wf1 pos, of "mf + b"] obtain v g' where
      r: "edmonds_karp_loop g1 (mf + b) b = Some (Inr v, g')" "mf + b \<le> v"
        "wf_graph g'" "same_network g1 g'" "solving g1 g'" "bfs g' = Some (Inr 0, g')"
        "\<forall>p. \<not> aug_path g' (source g') p (sink g')"
      and net': "\<forall>x. net_flow (edges g') x =
        net_flow (edges g1) x + (if x = source g1 then v - (mf + b) else 0)
          - (if x = sink g1 then v - (mf + b) else 0)"
      by blast
    have "net_flow (edges g') x =
        net_flow (edges g) x + (if x = source g then v - mf else 0)
          - (if x = sink g then v - mf else 0)" for x
      using net' net same by simp
    moreover have "solving g g'" using r(5) b(1) by (rule solving_front)
    moreover have "same_network g g'" using sn r(4) by (rule same_network_trans)
    moreover have "mf \<le> v" using r(2) pos by simp
    ultimately show ?thesis using unfold r by simp
  qed
qed

lemma edmonds_karp_total:
  assumes "wf_graph g"
  shows "\<exists>v g'. edmonds_karp g = Some (Inr v, g') \<and> 0 \<le> v \<and>
     wf_graph g' \<and> same_network g g' \<and> solving g g' \<and>
     bfs g' = Some (Inr 0, g') \<and>
     (\<forall>p. \<not> aug_path g' (source g') p (sink g')) \<and>
     (\<forall>x. net_flow (edges g') x =
        net_flow (edges g) x + (if x = source g then v else 0) - (if x = sink g then v else 0))"
proof -
  have "0 < (1::int)" by simp
  from edmonds_karp_loop_total [OF assms this, of 0, unfolded diff_zero]
  show ?thesis unfolding edmonds_karp_def by blast
qed

subsection \<open>Flows on the forward edges\<close>

lemma sum_pairs: "(\<Sum>a<2 * K. h a) = (\<Sum>k<K. h (2 * k) + h (Suc (2 * k)) :: int)"
  by (induction K) simp_all

lemma wf_graph_forward:
  assumes wf: "wf_graph g" and k: "k < length (edges g) div 2"
  shows "residual (forward_edge g k) = Suc (2 * k)"
    and "from_node (residual_edge g k) = to_node (forward_edge g k)"
    and "flow (residual_edge g k) = - flow (forward_edge g k)"
    and "capacity (residual_edge g k) = 0"
    and "0 \<le> flow (forward_edge g k)"
    and "flow (forward_edge g k) \<le> capacity (forward_edge g k)"
proof -
  from wf have ev: "even (length (edges g))" by (simp add: wf_graph_def wf_shape_def)
  with k have a: "2 * k < length (edges g)" and a': "Suc (2 * k) < length (edges g)"
    by (auto elim!: evenE)
  have p: "partner (2 * k) = Suc (2 * k)" by (simp add: partner_def)
  from wf a have sh: "residual (edges g ! (2 * k)) = partner (2 * k)"
    "from_node (edges g ! partner (2 * k)) = to_node (edges g ! (2 * k))"
    by (simp_all add: wf_graph_def wf_shape_def)
  from wf a have fl: "flow (edges g ! partner (2 * k)) = - flow (edges g ! (2 * k))"
    "flow (edges g ! (2 * k)) \<le> capacity (edges g ! (2 * k))"
    by (simp_all add: wf_graph_def wf_flow_def)
  from wf have "wf_flow (edges g)" by (simp add: wf_graph_def)
  with a' have od2: "flow (edges g ! Suc (2 * k)) \<le> capacity (edges g ! Suc (2 * k))"
    by (simp add: wf_flow_def)
  from wf a' have od1: "capacity (edges g ! Suc (2 * k)) = 0"
    by (simp add: wf_graph_def wf_shape_def)
  note od = od1 od2
  from sh p show "residual (forward_edge g k) = Suc (2 * k)"
    by (simp add: forward_edge_def)
  from sh p show "from_node (residual_edge g k) = to_node (forward_edge g k)"
    by (simp add: forward_edge_def residual_edge_def)
  from fl p show r: "flow (residual_edge g k) = - flow (forward_edge g k)"
    by (simp add: forward_edge_def residual_edge_def)
  from od show c: "capacity (residual_edge g k) = 0"
    by (simp add: residual_edge_def)
  from od r show "0 \<le> flow (forward_edge g k)"
    by (simp add: residual_edge_def)
  from fl show "flow (forward_edge g k) \<le> capacity (forward_edge g k)"
    by (simp add: forward_edge_def)
qed

lemma net_flow_split:
  assumes wf: "wf_graph g"
  shows "net_flow (edges g) v = flow_out g v - flow_in g v"
proof -
  let ?K = "length (edges g) div 2"
  from wf have len: "length (edges g) = 2 * ?K" by (simp add: wf_graph_def wf_shape_def)
  have "net_flow (edges g) v =
      (\<Sum>k<?K. (if from_node (forward_edge g k) = v then flow (forward_edge g k) else 0)
         + (if from_node (residual_edge g k) = v then flow (residual_edge g k) else 0))"
    unfolding net_flow_def forward_edge_def residual_edge_def
    by (subst len) (simp only: sum_pairs Suc_eq_plus1)
  also have "\<dots> =
      (\<Sum>k<?K. (if from_node (forward_edge g k) = v then flow (forward_edge g k) else 0)
         - (if to_node (forward_edge g k) = v then flow (forward_edge g k) else 0))"
    by (rule sum.cong) (simp_all add: wf_graph_forward [OF wf])
  finally show ?thesis by (simp add: flow_out_def flow_in_def sum_subtractf)
qed

lemma flow_in_nonneg: "wf_graph g \<Longrightarrow> 0 \<le> flow_in g v"
  unfolding flow_in_def by (rule sum_nonneg) (simp add: wf_graph_forward)

lemma flow_out_nonneg: "wf_graph g \<Longrightarrow> 0 \<le> flow_out g v"
  unfolding flow_out_def by (rule sum_nonneg) (simp add: wf_graph_forward)

lemma built_forward:
  assumes b: "built g0 n s t es" and sn: "same_network g0 g" and k: "k < length es"
  shows "capacity (forward_edge g k) = snd (snd (es ! k))"
    and "from_node (forward_edge g k) = fst (es ! k) - 1"
    and "to_node (forward_edge g k) = fst (snd (es ! k)) - 1"
proof -
  from b k have a: "2 * k < length (edges g0)" by (simp add: built_def)
  from b k have f: "forward_edge g0 k =
          (case es ! k of (from_n, to_n, cap) \<Rightarrow>
             \<lparr>capacity = cap, from_node = from_n - 1, to_node = to_n - 1, flow = 0,
              residual = 2 * k + 1\<rparr>)"
    by (simp add: built_def)
  from sn a have "capacity (forward_edge g k) = capacity (forward_edge g0 k)"
    "from_node (forward_edge g k) = from_node (forward_edge g0 k)"
    "to_node (forward_edge g k) = to_node (forward_edge g0 k)"
    by (simp_all add: same_network_def same_shape_def forward_edge_def)
  with f show "capacity (forward_edge g k) = snd (snd (es ! k))"
    and "from_node (forward_edge g k) = fst (es ! k) - 1"
    and "to_node (forward_edge g k) = fst (snd (es ! k)) - 1"
    by (simp_all split: prod.splits)
qed

lemma sum_list_nth_int: "sum_list (map h xs) = (\<Sum>k<length xs. h (xs ! k) :: int)"
proof -
  have "sum_list (map h xs) = (\<Sum>k = 0..<length (map h xs). map h xs ! k)"
    by (rule sum_list_sum_nth)
  also have "\<dots> = (\<Sum>k<length xs. h (xs ! k))"
    by (simp add: atLeast0LessThan)
  finally show ?thesis .
qed

lemma built_flow_out_le:
  assumes v: "valid_network n s t es" and b: "built g0 n s t es"
    and sn: "same_network g0 g" and wf: "wf_graph g"
  shows "flow_out g (source g) \<le> capacity_leaving es s"
    and "flow_in g (sink g) \<le> capacity_entering es t"
proof -
  from b sn have len: "length (edges g) div 2 = length es"
    and st: "source g = s - 1" "sink g = t - 1"
    by (simp_all add: built_def same_network_def same_shape_def)
  have "flow_out g (source g) \<le>
      (\<Sum>k<length es. (\<lambda>(from_n, to_n, cap). if from_n = s then cap else 0) (es ! k))"
    unfolding flow_out_def len
  proof (rule sum_mono)
    fix k assume "k \<in> {..<length es}"
    then have k: "k < length es" by simp
    with len have k': "k < length (edges g) div 2" by simp
    from built_forward [OF b sn k] wf_graph_forward(6) [OF wf k'] st
    show "(if from_node (forward_edge g k) = source g then flow (forward_edge g k) else 0)
       \<le> (\<lambda>(from_n, to_n, cap). if from_n = s then cap else 0) (es ! k)"
      by (auto split: prod.splits)
  qed
  then show "flow_out g (source g) \<le> capacity_leaving es s"
    by (simp add: capacity_leaving_def sum_list_nth_int)
  have "flow_in g (sink g) \<le>
      (\<Sum>k<length es. (\<lambda>(from_n, to_n, cap). if to_n = t then cap else 0) (es ! k))"
    unfolding flow_in_def len
  proof (rule sum_mono)
    fix k assume "k \<in> {..<length es}"
    then have k: "k < length es" by simp
    with len have k': "k < length (edges g) div 2" by simp
    from built_forward [OF b sn k] wf_graph_forward(6) [OF wf k'] st
    show "(if to_node (forward_edge g k) = sink g then flow (forward_edge g k) else 0)
       \<le> (\<lambda>(from_n, to_n, cap). if to_n = t then cap else 0) (es ! k)"
      by (auto split: prod.splits)
  qed
  then show "flow_in g (sink g) \<le> capacity_entering es t"
    by (simp add: capacity_entering_def sum_list_nth_int)
qed

lemma built_flow_zero:
  assumes "built g0 n s t es" "a < length (edges g0)"
  shows "flow (edges g0 ! a) = 0"
proof -
  from assms have "a < 2 * length es" by (simp add: built_def)
  then show ?thesis
  proof (cases rule: built_edge_cases)
    case (1 k)
    with assms have "forward_edge g0 k =
        (case es ! k of (from_n, to_n, cap) \<Rightarrow>
           \<lparr>capacity = cap, from_node = from_n - 1, to_node = to_n - 1, flow = 0,
            residual = 2 * k + 1\<rparr>)"
      by (simp add: built_def)
    with 1 show ?thesis by (simp add: forward_edge_def split: prod.splits)
  next
    case (2 k)
    with assms have "residual_edge g0 k =
        (case es ! k of (from_n, to_n, cap) \<Rightarrow>
           \<lparr>capacity = 0, from_node = to_n - 1, to_node = from_n - 1, flow = 0,
            residual = 2 * k\<rparr>)"
      by (simp add: built_def)
    with 2 show ?thesis by (simp add: residual_edge_def split: prod.splits)
  qed
qed

lemma built_net_flow_zero:
  assumes "built g0 n s t es"
  shows "net_flow (edges g0) v = 0"
  unfolding net_flow_def using built_flow_zero [OF assms] by (intro sum.neutral) simp

lemma valid_build:
  assumes "valid_network n s t es" "build n s t es = (Inr (), g0)"
  shows "built g0 n s t es" "wf_graph g0"
proof -
  from build_built [OF assms(1)] assms(2) show "built g0 n s t es" by auto
  with assms(1) show "wf_graph g0" by (rule built_wf)
qed

text \<open>The flows after the paired updates along a path without repetition.\<close>

lemma push_path_flow:
  "paired es \<Longrightarrow> distinct p \<Longrightarrow> \<forall>a \<in> set p. a < length es \<Longrightarrow> x < length es \<Longrightarrow>
   flow (push_path es p b ! x) =
     flow (es ! x) + (if x \<in> set p then b else 0) - (if partner x \<in> set p then b else 0)"
proof (induction p arbitrary: es)
  case Nil
  then show ?case by simp
next
  case (Cons a p)
  from Cons.prems have a: "a < length es" and ap: "a \<notin> set p" by simp_all
  note r = paired_residual [OF Cons.prems(1) a]
  have e: "x = partner a \<longleftrightarrow> partner x = a" by (metis partner_partner)
  have "flow (push_path (push_flow es a b) p b ! x) =
      flow (push_flow es a b ! x) + (if x \<in> set p then b else 0)
        - (if partner x \<in> set p then b else 0)"
    using Cons.prems a by (intro Cons.IH paired_push_flow) simp_all
  also have "flow (push_flow es a b ! x) =
      flow (es ! x) + (if x = a then b else 0) - (if partner x = a then b else 0)"
    using push_flow_flow [OF a r Cons.prems(4), of b] e by simp
  finally show ?case using ap by auto
qed

subsection \<open>The residual invariant\<close>

lemma wf_graph_pair_inv:
  assumes "wf_graph g"
  shows "pair_inv (edges g)"
proof -
  from assms have p: "paired (edges g)" and f: "wf_flow (edges g)"
    by (simp_all add: wf_graph_def wf_shape_paired)
  have "residual (edges g ! a) < length (edges g) \<and>
        residual (edges g ! residual (edges g ! a)) = a \<and>
        flow (edges g ! a) = - flow (edges g ! residual (edges g ! a))"
    if a: "a < length (edges g)" for a
  proof -
    note pa = paired_partner_less [OF p a]
    from paired_residual [OF p a] paired_residual [OF p pa] f a pa show ?thesis
      by (simp add: wf_flow_def)
  qed
  then show ?thesis unfolding pair_inv_def by blast
qed

lemma pair_inv_push_flow:
  assumes inv: "pair_inv es" and a: "a < length es"
  shows "pair_inv (push_flow es a b)"
proof -
  let ?r = "residual (es ! a)"
  from inv a have r: "?r < length es" and rr: "residual (es ! ?r) = a"
    and fl: "flow (es ! a) = - flow (es ! ?r)"
    unfolding pair_inv_def by blast+
  show ?thesis
  proof (cases "?r = a")
    case True
    with a have "push_flow es a b = es"
      by (simp add: push_flow_def Let_def)
    with inv show ?thesis by simp
  next
    case False
    have nth: "push_flow es a b ! x =
        (if x = ?r then (es ! ?r)\<lparr>flow := flow (es ! ?r) - b\<rparr>
         else if x = a then (es ! a)\<lparr>flow := flow (es ! a) + b\<rparr>
         else es ! x)" if "x < length es" for x
      using that a r False by (auto simp: push_flow_def Let_def nth_list_update)
    have res: "residual (push_flow es a b ! x) = residual (es ! x)" if "x < length es" for x
      using that by (simp add: nth)
    have "residual (push_flow es a b ! x) < length (push_flow es a b) \<and>
        residual (push_flow es a b ! residual (push_flow es a b ! x)) = x \<and>
        flow (push_flow es a b ! x) =
          - flow (push_flow es a b ! residual (push_flow es a b ! x))"
      if x: "x < length es" for x
    proof -
      let ?rx = "residual (es ! x)"
      from inv x have rx: "?rx < length es" and rrx: "residual (es ! ?rx) = x"
        and fx: "flow (es ! x) = - flow (es ! ?rx)"
        unfolding pair_inv_def by blast+
      have e1: "?rx = a \<longleftrightarrow> x = ?r" using rrx rr by metis
      have e2: "?rx = ?r \<longleftrightarrow> x = a" using rrx rr by metis
      have len: "residual (push_flow es a b ! x) < length (push_flow es a b)"
        using x rx by (simp add: res)
      have sym: "residual (push_flow es a b ! residual (push_flow es a b ! x)) = x"
        using x rx rrx by (simp add: res)
      have neg: "flow (push_flow es a b ! x) =
          - flow (push_flow es a b ! residual (push_flow es a b ! x))"
      proof -
        consider "x = a" | "x = ?r" | "x \<noteq> a" "x \<noteq> ?r" by blast
        then show ?thesis
        proof cases
          case 1
          then have "flow (push_flow es a b ! x) = flow (es ! a) + b"
            "flow (push_flow es a b ! residual (es ! x)) = flow (es ! ?r) - b"
            using a r False by (simp_all add: nth)
          with fl x show ?thesis by (simp add: res)
        next
          case 2
          then have "flow (push_flow es a b ! x) = flow (es ! ?r) - b"
            "flow (push_flow es a b ! residual (es ! x)) = flow (es ! a) + b"
            using a r rr False by (simp_all add: nth)
          with fl x show ?thesis by (simp add: res)
        next
          case 3
          with e1 e2 have "?rx \<noteq> a" "?rx \<noteq> ?r" by simp_all
          with 3 have "flow (push_flow es a b ! x) = flow (es ! x)"
            "flow (push_flow es a b ! residual (es ! x)) = flow (es ! ?rx)"
            using x rx by (simp_all add: nth)
          with fx x show ?thesis by (simp add: res)
        qed
      qed
      from len sym neg show ?thesis by blast
    qed
    then show ?thesis unfolding pair_inv_def push_flow_length by blast
  qed
qed

lemma pair_inv_push_path:
  "pair_inv es \<Longrightarrow> \<forall>a \<in> set p. a < length es \<Longrightarrow> pair_inv (push_path es p b)"
proof (induction p arbitrary: es)
  case Nil
  then show ?case by simp
next
  case (Cons a p)
  from Cons.prems have "pair_inv (push_flow es a b)" by (simp add: pair_inv_push_flow)
  moreover from Cons.prems have "\<forall>x \<in> set p. x < length (push_flow es a b)" by simp
  ultimately show ?case using Cons.IH by simp
qed

subsection \<open>The two concrete networks\<close>

lemma network1_valid: "valid_network 10 1 10 network1"
  by code_simp

lemma network1_build: "build 10 1 10 network1 = (Inr (), network1_graph)"
proof -
  have "fst (build 10 1 10 network1) = Inr ()" by code_simp
  then show ?thesis by (simp add: network1_graph_def prod_eq_iff)
qed

lemma network_back_valid: "valid_network 2 1 2 network_back"
  by code_simp

lemma network_back_build: "build 2 1 2 network_back = (Inr (), network_back_graph)"
proof -
  have "fst (build 2 1 2 network_back) = Inr ()" by code_simp
  then show ?thesis by (simp add: network_back_graph_def prod_eq_iff)
qed

lemma network_back_no_path:
  "\<forall>p. \<not> aug_path network_back_graph (source network_back_graph) p (sink network_back_graph)"
proof
  fix p
  have g: "network_back_graph =
      \<lparr>num_nodes = 2, source = 0, sink = 1, graph = [[1], [0]],
       edges = [\<lparr>capacity = 5, from_node = 1, to_node = 0, flow = 0, residual = 1\<rparr>,
                \<lparr>capacity = 0, from_node = 0, to_node = 1, flow = 0, residual = 0\<rparr>]\<rparr>"
    by code_simp
  show "\<not> aug_path network_back_graph (source network_back_graph) p (sink network_back_graph)"
  proof (cases p)
    case Nil
    then show ?thesis by (simp add: g)
  next
    case (Cons a p')
    then show ?thesis
      by (auto simp: g aug_path.simps(2) py_get_def py_index_def remaining_capacity_def)
  qed
qed

text \<open>The first search on the first network, and an augmenting path of four edges.\<close>

lemma network1_first_bfs:
  "map_option (\<lambda>(r, g). (r, flow (forward_edge g 0), flow (residual_edge g 0),
       flow (forward_edge g 1))) (bfs network1_graph) =
     Some (Inr 5, 5, - 5, 0)"
  by code_simp

lemma network1_path:
  "aug_path network1_graph (source network1_graph) [0, 4, 12, 22] (sink network1_graph)"
  by code_simp

section \<open>The claims\<close>

text \<open>
  Claim C1. On the network with nodes 1..10, source 1, sink 10 and the thirteen edges
  of \<open>network1\<close>, added in that order, every \<^verbatim>\<open>add_edge\<close> succeeds and
  \<^verbatim>\<open>edmonds_karp\<close> returns exactly 7.
\<close>

theorem C1_network1_max_flow:
  "(case build 10 1 10 network1 of
      (r, g) \<Rightarrow> (r, map_option fst (edmonds_karp g))) = (Inr (), Some (Inr 7))"
  by code_simp

text \<open>
  Claim C2, as the code has it. \<^verbatim>\<open>Graph.__init__\<close> checks nothing and raises nothing:
  the node list has \<open>num_nodes\<close> entries, none when \<open>num_nodes\<close> is not positive.
  \<^verbatim>\<open>add_edge\<close> checks neither the capacity nor the endpoints. It creates the edge
  with the capacity it is given and the residual edge with capacity 0, each the
  \<^verbatim>\<open>residual\<close> of the other, and leaves every other attribute of the graph as it is.
  It raises \<^verbatim>\<open>IndexError\<close> exactly when \<open>from_node - 1\<close> or \<open>to_node - 1\<close> is not an
  index of the node list, that is, lies outside \<open>[-len, len)\<close>; otherwise the edge is
  appended to the list of its start node and the residual edge to the list of its end
  node, and no other list changes.
\<close>

theorem C2_add_edge_raises:
  "build n s t [] = (Inr (), Graph_init n s t) \<and>
   length (graph (Graph_init n s t)) = nat n \<and>
   fst (add_edge g from_n to_n cap) =
     (if - int (length (graph g)) \<le> from_n - 1 \<and> from_n - 1 < int (length (graph g)) \<and>
         - int (length (graph g)) \<le> to_n - 1 \<and> to_n - 1 < int (length (graph g))
      then Inr () else Inl IndexError) \<and>
   edges (snd (add_edge g from_n to_n cap)) =
     edges g @
       [\<lparr>capacity = cap, from_node = from_n - 1, to_node = to_n - 1, flow = 0,
         residual = Suc (length (edges g))\<rparr>,
        \<lparr>capacity = 0, from_node = to_n - 1, to_node = from_n - 1, flow = 0,
         residual = length (edges g)\<rparr>] \<and>
   num_nodes (snd (add_edge g from_n to_n cap)) = num_nodes g \<and>
   source (snd (add_edge g from_n to_n cap)) = source g \<and>
   sink (snd (add_edge g from_n to_n cap)) = sink g \<and>
   length (graph (snd (add_edge g from_n to_n cap))) = length (graph g) \<and>
   (fst (add_edge g from_n to_n cap) = Inr () \<longrightarrow>
      (\<forall>v < length (graph g).
         graph (snd (add_edge g from_n to_n cap)) ! v =
           graph g ! v
             @ (if py_index (graph g) (from_n - 1) = Some v then [length (edges g)] else [])
             @ (if py_index (graph g) (to_n - 1) = Some v then [Suc (length (edges g))]
                else [])))"
proof -
  have idx: "py_index xs i = None \<longleftrightarrow> \<not> (- int (length xs) \<le> i \<and> i < int (length xs))"
    for xs :: "nat list list" and i
    by (auto simp: py_index_def Let_def)
  have r: "fst (add_edge g from_n to_n cap) =
     (if py_index (graph g) (from_n - 1) = None \<or> py_index (graph g) (to_n - 1) = None
      then Inl IndexError else Inr ())"
    by (auto simp: add_edge_def Let_def split: option.splits)
  have e: "edges (snd (add_edge g from_n to_n cap)) =
     edges g @
       [\<lparr>capacity = cap, from_node = from_n - 1, to_node = to_n - 1, flow = 0,
         residual = Suc (length (edges g))\<rparr>,
        \<lparr>capacity = 0, from_node = to_n - 1, to_node = from_n - 1, flow = 0,
         residual = length (edges g)\<rparr>]"
    by (simp add: add_edge_def Let_def Edge_init_def split: option.splits)
  have f: "num_nodes (snd (add_edge g from_n to_n cap)) = num_nodes g"
    "source (snd (add_edge g from_n to_n cap)) = source g"
    "sink (snd (add_edge g from_n to_n cap)) = sink g"
    "length (graph (snd (add_edge g from_n to_n cap))) = length (graph g)"
    by (simp_all add: add_edge_def Let_def split: option.splits)
  have a: "graph (snd (add_edge g from_n to_n cap)) ! v =
           graph g ! v
             @ (if py_index (graph g) (from_n - 1) = Some v then [length (edges g)] else [])
             @ (if py_index (graph g) (to_n - 1) = Some v then [Suc (length (edges g))]
                else [])"
    if ok: "fst (add_edge g from_n to_n cap) = Inr ()" and v: "v < length (graph g)" for v
  proof -
    from ok r obtain i j where i: "py_index (graph g) (from_n - 1) = Some i"
      and j: "py_index (graph g) (to_n - 1) = Some j"
      by (auto split: if_splits)
    from i j have "i < length (graph g)" "j < length (graph g)"
      by (auto dest: py_index_less)
    with i j v show ?thesis
      by (auto simp: add_edge_def Let_def nth_list_update)
  qed
  from r e f a show ?thesis
    by (simp add: idx build_def Graph_init_def)
qed

theorem C2_witness:
  "fst (add_edge (Graph_init 3 1 3) 1 9 7) = Inl IndexError \<and>
   fst (add_edge (Graph_init 3 1 3) 1 2 (- 4)) = Inr () \<and>
   edges (snd (add_edge (Graph_init 3 1 3) 1 2 (- 4))) =
     [\<lparr>capacity = - 4, from_node = 0, to_node = 1, flow = 0, residual = 1\<rparr>,
      \<lparr>capacity = 0, from_node = 1, to_node = 0, flow = 0, residual = 0\<rparr>] \<and>
   graph (snd (add_edge (Graph_init 3 1 3) 1 2 (- 4))) ! 0 = [0] \<and>
   graph (snd (add_edge (Graph_init 3 1 3) 1 2 (- 4))) ! 1 = [1] \<and>
   graph (snd (add_edge (Graph_init 3 1 3) 1 2 (- 4))) ! 2 = []"
proof -
  note bad = C2_add_edge_raises [of 3 1 3 "Graph_init 3 1 3" 1 9 7]
  note good = C2_add_edge_raises [of 3 1 3 "Graph_init 3 1 3" 1 2 "- 4"]
  have g: "graph (Graph_init 3 1 3) = [[], [], []]" "edges (Graph_init 3 1 3) = []"
    by (simp_all add: Graph_init_def numeral_3_eq_3)
  have i: "py_index [[], [], [] :: nat list] 0 = Some 0" "py_index [[], [], [] :: nat list] 1 = Some 1"
    by (simp_all add: py_index_def)
  from bad have "fst (add_edge (Graph_init 3 1 3) 1 9 7) = Inl IndexError"
    by (simp add: g)
  moreover from good have ok: "fst (add_edge (Graph_init 3 1 3) 1 2 (- 4)) = Inr ()"
    by (simp add: g)
  moreover from good have "edges (snd (add_edge (Graph_init 3 1 3) 1 2 (- 4))) =
     [\<lparr>capacity = - 4, from_node = 0, to_node = 1, flow = 0, residual = 1\<rparr>,
      \<lparr>capacity = 0, from_node = 1, to_node = 0, flow = 0, residual = 0\<rparr>]"
    by (simp add: g)
  moreover from good ok have adj: "\<forall>v < 3.
         graph (snd (add_edge (Graph_init 3 1 3) 1 2 (- 4))) ! v =
           [[], [], []] ! v
             @ (if py_index [[], [], [] :: nat list] 0 = Some v then [0] else [])
             @ (if py_index [[], [], [] :: nat list] 1 = Some v then [Suc 0] else [])"
    by (simp add: g)
  from adj [rule_format, of 0] adj [rule_format, of 1] adj [rule_format, of 2]
  have "graph (snd (add_edge (Graph_init 3 1 3) 1 2 (- 4))) ! 0 = [0]"
    "graph (snd (add_edge (Graph_init 3 1 3) 1 2 (- 4))) ! 1 = [1]"
    "graph (snd (add_edge (Graph_init 3 1 3) 1 2 (- 4))) ! 2 = []"
    by (simp_all add: i)
  ultimately show ?thesis by simp
qed

text \<open>
  Claim C2 as stated fails: a network with no nodes and equal source and sink is
  constructed; an edge of negative capacity and an edge from node 0 are added; and an
  out-of-range source raises only when the network is solved.
\<close>

theorem C2_counterexample:
  "fst (build 0 1 1 []) = Inr () \<and>
   fst (add_edge (Graph_init 3 1 3) 1 2 (- 4)) = Inr () \<and>
   fst (add_edge (Graph_init 3 1 3) 0 2 7) = Inr () \<and>
   map_option fst (edmonds_karp (Graph_init 2 5 1)) = Some (Inl IndexError)"
  by code_simp

text \<open>
  Claim C3. For every edge created through \<^verbatim>\<open>add_edge\<close> of a valid network, the
  pairing is symmetric (\<open>e.residual.residual\<close> is \<open>e\<close>) and \<open>e.flow = - e.residual.flow\<close>:
  at creation, where every flow is 0; after every paired update
  \<^verbatim>\<open>edge.flow += network_flow; edge.residual.flow -= network_flow\<close> of a store in which
  it holds; in every state of the network while it is solved, the state that
  \<^verbatim>\<open>edmonds_karp\<close> returns among them; and in such a state after any number of paired
  updates, which are the stores inside a call of \<^verbatim>\<open>bfs\<close>.
\<close>

theorem C3_residual_symmetry:
  assumes "valid_network n s t es" and "build n s t es = (Inr (), g0)"
  shows "pair_inv (edges g0) \<and> (\<forall>a < length (edges g0). flow (edges g0 ! a) = 0) \<and>
     (\<forall>es' a b. pair_inv es' \<longrightarrow> a < length es' \<longrightarrow> pair_inv (push_flow es' a b)) \<and>
     (\<forall>g. solving g0 g \<longrightarrow> pair_inv (edges g)) \<and>
     (\<forall>g p b. solving g0 g \<longrightarrow> (\<forall>a \<in> set p. a < length (edges g)) \<longrightarrow>
        pair_inv (push_path (edges g) p b)) \<and>
     (\<exists>v g'. edmonds_karp g0 = Some (Inr v, g') \<and> solving g0 g')"
proof -
  note b = valid_build [OF assms]
  have reach: "pair_inv (edges g)" if "solving g0 g" for g
    using solving_wf [OF that b(2)] by (auto intro: wf_graph_pair_inv)
  have "pair_inv (edges g0)" using b(2) by (rule wf_graph_pair_inv)
  moreover have "\<forall>a < length (edges g0). flow (edges g0 ! a) = 0"
    using built_flow_zero [OF b(1)] by simp
  moreover have "\<forall>es' a b. pair_inv es' \<longrightarrow> a < length es' \<longrightarrow> pair_inv (push_flow es' a b)"
    by (simp add: pair_inv_push_flow)
  moreover have "\<forall>g. solving g0 g \<longrightarrow> pair_inv (edges g)"
    using reach by simp
  moreover have "\<forall>g p b. solving g0 g \<longrightarrow> (\<forall>a \<in> set p. a < length (edges g)) \<longrightarrow>
        pair_inv (push_path (edges g) p b)"
    using reach by (simp add: pair_inv_push_path)
  moreover have "\<exists>v g'. edmonds_karp g0 = Some (Inr v, g') \<and> solving g0 g'"
    using edmonds_karp_total [OF b(2)] by blast
  ultimately show ?thesis by blast
qed

theorem C3_witness:
  "valid_network 10 1 10 network1 \<and> pair_inv (edges network1_graph) \<and>
   (\<exists>v g'. edmonds_karp network1_graph = Some (Inr v, g') \<and> solving network1_graph g' \<and>
      pair_inv (edges g'))"
  using C3_residual_symmetry [OF network1_valid network1_build] network1_valid by blast

text \<open>
  Claim C4. In every state of a valid network while it is solved (as built, after each
  call of \<^verbatim>\<open>bfs\<close>, and as \<^verbatim>\<open>edmonds_karp\<close> returns it), the edge created by the
  \<open>k\<close>-th \<^verbatim>\<open>add_edge\<close> call has the requested capacity and a flow between 0 and that
  capacity, and its residual edge has capacity 0 and a flow that is 0 or negative.
\<close>

theorem C4_flow_bounds:
  assumes "valid_network n s t es" and "build n s t es = (Inr (), g0)"
    and "solving g0 g" and "k < length es"
  shows "capacity (forward_edge g k) = snd (snd (es ! k)) \<and>
     0 \<le> flow (forward_edge g k) \<and> flow (forward_edge g k) \<le> capacity (forward_edge g k) \<and>
     edges g ! residual (forward_edge g k) = residual_edge g k \<and>
     capacity (residual_edge g k) = 0 \<and> flow (residual_edge g k) \<le> 0 \<and>
     (\<exists>v g'. edmonds_karp g0 = Some (Inr v, g') \<and> solving g0 g')"
proof -
  note b = valid_build [OF assms(1,2)]
  from solving_wf [OF assms(3) b(2)] have wf: "wf_graph g" and sn: "same_network g0 g"
    by simp_all
  from b(1) sn assms(4) have k: "k < length (edges g) div 2"
    by (simp add: built_def same_network_def same_shape_def)
  note f = wf_graph_forward [OF wf k]
  from f(3) f(5) have "flow (residual_edge g k) \<le> 0" by simp
  moreover have "edges g ! residual (forward_edge g k) = residual_edge g k"
    using f(1) by (simp add: residual_edge_def)
  moreover have "\<exists>v g'. edmonds_karp g0 = Some (Inr v, g') \<and> solving g0 g'"
    using edmonds_karp_total [OF b(2)] by blast
  ultimately show ?thesis
    using built_forward(1) [OF b(1) sn assms(4)] f(4,5,6) by simp
qed

theorem C4_witness:
  "valid_network 10 1 10 network1 \<and>
   (\<exists>g. solving network1_graph g \<and>
      flow (forward_edge g 0) = 5 \<and> flow (residual_edge g 0) = - 5 \<and>
      capacity (forward_edge g 0) = 5 \<and>
      0 \<le> flow (forward_edge g 0) \<and> flow (forward_edge g 0) \<le> capacity (forward_edge g 0) \<and>
      capacity (residual_edge g 0) = 0 \<and> flow (residual_edge g 0) \<le> 0)"
proof -
  from network1_first_bfs obtain g where
    r: "bfs network1_graph = Some (Inr 5, g)"
    and fl: "flow (forward_edge g 0) = 5" "flow (residual_edge g 0) = - 5"
    by auto
  have s: "solving network1_graph g"
    using solving.start r by (rule solving.search)
  have k: "0 < length network1" by (simp add: network1_def)
  have "snd (snd (network1 ! 0)) = 5" by (simp add: network1_def)
  with C4_flow_bounds [OF network1_valid network1_build s k] network1_valid fl s
  show ?thesis by auto
qed

text \<open>
  Claim C5. On every valid network (finitely many nodes and edges, non-negative integer
  capacities) \<^verbatim>\<open>edmonds_karp\<close> returns, without an exception, and its value is not
  negative.
\<close>

theorem C5_edmonds_karp_total:
  assumes "valid_network n s t es" and "build n s t es = (Inr (), g0)"
  shows "\<exists>v g'. edmonds_karp g0 = Some (Inr v, g') \<and> 0 \<le> v"
  using edmonds_karp_total [OF valid_build(2) [OF assms]] by blast

theorem C5_witness:
  "valid_network 10 1 10 network1 \<and>
   (\<exists>v g'. edmonds_karp network1_graph = Some (Inr v, g') \<and> 0 \<le> v)"
  using C5_edmonds_karp_total [OF network1_valid network1_build] network1_valid by simp

text \<open>
  Claim C6. On every valid network the value that \<^verbatim>\<open>edmonds_karp\<close> returns is at
  most the sum of the capacities of the edges added out of the source, and at most the
  sum of the capacities of the edges added into the sink.
\<close>

theorem C6_max_flow_bounded:
  assumes "valid_network n s t es" and "build n s t es = (Inr (), g0)"
  shows "\<exists>v g'. edmonds_karp g0 = Some (Inr v, g') \<and>
     v \<le> capacity_leaving es s \<and> v \<le> capacity_entering es t"
proof -
  note b = valid_build [OF assms]
  from edmonds_karp_total [OF b(2)] obtain v g' where
    r: "edmonds_karp g0 = Some (Inr v, g')" and wf: "wf_graph g'"
    and sn: "same_network g0 g'"
    and net: "\<forall>x. net_flow (edges g') x =
        net_flow (edges g0) x + (if x = source g0 then v else 0) - (if x = sink g0 then v else 0)"
    by blast
  from b(2) have ne: "source g0 \<noteq> sink g0" by (simp add: wf_graph_def wf_shape_def)
  from sn have st: "source g' = source g0" "sink g' = sink g0" by (simp_all add: same_network_def)
  from net ne have "net_flow (edges g') (source g') = v" "net_flow (edges g') (sink g') = - v"
    by (simp_all add: st built_net_flow_zero [OF b(1)])
  then have "v = flow_out g' (source g') - flow_in g' (source g')"
    "v = flow_in g' (sink g') - flow_out g' (sink g')"
    by (simp_all add: net_flow_split [OF wf])
  with flow_in_nonneg [OF wf, of "source g'"] flow_out_nonneg [OF wf, of "sink g'"]
    built_flow_out_le [OF assms(1) b(1) sn wf]
  have "v \<le> capacity_leaving es s" "v \<le> capacity_entering es t" by simp_all
  with r show ?thesis by blast
qed

theorem C6_witness:
  "valid_network 10 1 10 network1 \<and>
   (\<exists>v g'. edmonds_karp network1_graph = Some (Inr v, g') \<and> v \<le> 15 \<and> v \<le> 15)"
proof -
  have "capacity_leaving network1 1 = 15" "capacity_entering network1 10 = 15"
    by (simp_all add: capacity_leaving_def capacity_entering_def network1_def)
  with C6_max_flow_bounded [OF network1_valid network1_build] network1_valid
  show ?thesis by simp
qed

text \<open>
  Claim C7. On every valid network \<^verbatim>\<open>edmonds_karp\<close> returns a value \<open>v\<close>; called again
  on the network as the first call left it, it returns 0 and leaves the network as it
  is; and on a fresh network built from the same arguments it returns \<open>v\<close> again.
\<close>

theorem C7_solve_again:
  assumes "valid_network n s t es" and "build n s t es = (Inr (), g0)"
  shows "\<exists>v g'. edmonds_karp g0 = Some (Inr v, g') \<and>
     edmonds_karp g' = Some (Inr 0, g') \<and>
     (\<forall>g1. build n s t es = (Inr (), g1) \<longrightarrow> map_option fst (edmonds_karp g1) = Some (Inr v))"
proof -
  note b = valid_build [OF assms]
  from edmonds_karp_total [OF b(2)] obtain v g' where
    r: "edmonds_karp g0 = Some (Inr v, g')" and z: "bfs g' = Some (Inr 0, g')"
    by blast
  have "edmonds_karp_loop g' 0 0 = Some (Inr 0, g')"
    by (subst edmonds_karp_loop.simps) simp
  with z have "edmonds_karp g' = Some (Inr 0, g')"
    unfolding edmonds_karp_def by (subst edmonds_karp_loop.simps) simp
  moreover have "\<forall>g1. build n s t es = (Inr (), g1) \<longrightarrow>
      map_option fst (edmonds_karp g1) = Some (Inr v)"
    using assms(2) r by simp
  ultimately show ?thesis using r by blast
qed

theorem C7_witness:
  "valid_network 10 1 10 network1 \<and>
   (\<exists>v g'. edmonds_karp network1_graph = Some (Inr v, g') \<and>
      edmonds_karp g' = Some (Inr 0, g'))"
  using C7_solve_again [OF network1_valid network1_build] network1_valid by blast

text \<open>
  Claim C8. In every state of a valid network while it is solved, \<^verbatim>\<open>bfs\<close> returns a
  value that is not negative. If no path from the source to the sink over edges with
  remaining capacity exists, it returns 0; if one exists, it returns a positive value.
  If it returns a positive value \<open>b\<close>, then the walk along the predecessor array from
  the sink back to the source yields a path \<open>p\<close> (listed from the sink) that is such a
  path, no such path has fewer edges, and \<open>b\<close> is the minimum remaining capacity of the
  edges of \<open>p\<close> before the update. The network it leaves differs in flows only: the
  flow of every edge of \<open>p\<close> has grown by \<open>b\<close>, the flow of the residual of every edge
  of \<open>p\<close> has fallen by \<open>b\<close>, and no other flow has changed.
\<close>

theorem C8_bfs_shortest_path:
  assumes "valid_network n s t es" and "build n s t es = (Inr (), g0)"
    and "solving g0 g"
  shows "(\<exists>b g'. bfs g = Some (Inr b, g') \<and> 0 \<le> b) \<and>
     ((\<forall>p. \<not> aug_path g (source g) p (sink g)) \<longrightarrow> bfs g = Some (Inr 0, g)) \<and>
     ((\<exists>p. aug_path g (source g) p (sink g)) \<longrightarrow> (\<exists>b g'. bfs g = Some (Inr b, g') \<and> 0 < b)) \<and>
     (\<forall>b g'. bfs g = Some (Inr b, g') \<longrightarrow> 0 < b \<longrightarrow>
        (\<exists>vis prev p. bfs_search g = Inr (vis, prev) \<and>
            pred_walk (edges g) prev (source g) (sink g) p \<and>
            aug_path g (source g) (rev p) (sink g) \<and>
            (\<forall>p'. aug_path g (source g) p' (sink g) \<longrightarrow> length p \<le> length p') \<and>
            b = bottleneck_of g p \<and>
            g' = g\<lparr>edges := push_path (edges g) p b\<rparr> \<and>
            num_nodes g' = num_nodes g \<and> source g' = source g \<and> sink g' = sink g \<and>
            graph g' = graph g \<and> length (edges g') = length (edges g) \<and>
            (\<forall>x < length (edges g).
               capacity (edges g' ! x) = capacity (edges g ! x) \<and>
               from_node (edges g' ! x) = from_node (edges g ! x) \<and>
               to_node (edges g' ! x) = to_node (edges g ! x) \<and>
               residual (edges g' ! x) = residual (edges g ! x) \<and>
               flow (edges g' ! x) =
                 flow (edges g ! x) + (if x \<in> set p then b else 0)
                   - (if residual (edges g ! x) \<in> set p then b else 0))))"
proof -
  note b = valid_build [OF assms(1,2)]
  from solving_wf [OF assms(3) b(2)] have wf: "wf_graph g" by simp
  from wf show ?thesis
  proof (cases rule: bfs_cases)
    case (no_path vis prev)
    then show ?thesis by simp
  next
    case (augmented vis prev a p)
    from wf have ws: "wf_shape g" by (simp add: wf_graph_def)
    note pr = wf_shape_paired [OF ws]
    let ?b = "bottleneck_of g (a # p)"
    let ?g' = "g\<lparr>edges := push_path (edges g) (a # p) ?b\<rparr>"
    from bottleneck_of_positive [OF ws augmented(4)] have pos: "0 < ?b"
      by (simp add: bottleneck_of_def)
    note bound = pred_walk_bound [OF augmented(3)]
    have sh: "same_shape (edges g) (push_path (edges g) (a # p) ?b)"
      using bound pr by (intro push_path_same_shape) (auto simp: paired_def)
    have fl: "flow (edges ?g' ! x) =
        flow (edges g ! x) + (if x \<in> set (a # p) then ?b else 0)
          - (if residual (edges g ! x) \<in> set (a # p) then ?b else 0)"
      if "x < length (edges g)" for x
      using push_path_flow [OF pr pred_walk_distinct [OF augmented(3)] bound that, of ?b]
        paired_residual [OF pr that]
      by simp
    have upd: "\<forall>x < length (edges g).
               capacity (edges ?g' ! x) = capacity (edges g ! x) \<and>
               from_node (edges ?g' ! x) = from_node (edges g ! x) \<and>
               to_node (edges ?g' ! x) = to_node (edges g ! x) \<and>
               residual (edges ?g' ! x) = residual (edges g ! x) \<and>
               flow (edges ?g' ! x) =
                 flow (edges g ! x) + (if x \<in> set (a # p) then ?b else 0)
                   - (if residual (edges g ! x) \<in> set (a # p) then ?b else 0)"
      using sh fl by (simp add: same_shape_def)
    have len: "length (edges ?g') = length (edges g)"
      using sh by (simp add: same_shape_def)
    have found: "\<exists>vis prev w. bfs_search g = Inr (vis, prev) \<and>
            pred_walk (edges g) prev (source g) (sink g) w \<and>
            aug_path g (source g) (rev w) (sink g) \<and>
            (\<forall>p'. aug_path g (source g) p' (sink g) \<longrightarrow> length w \<le> length p') \<and>
            ?b = bottleneck_of g w \<and>
            ?g' = g\<lparr>edges := push_path (edges g) w ?b\<rparr> \<and>
            num_nodes ?g' = num_nodes g \<and> source ?g' = source g \<and> sink ?g' = sink g \<and>
            graph ?g' = graph g \<and> length (edges ?g') = length (edges g) \<and>
            (\<forall>x < length (edges g).
               capacity (edges ?g' ! x) = capacity (edges g ! x) \<and>
               from_node (edges ?g' ! x) = from_node (edges g ! x) \<and>
               to_node (edges ?g' ! x) = to_node (edges g ! x) \<and>
               residual (edges ?g' ! x) = residual (edges g ! x) \<and>
               flow (edges ?g' ! x) =
                 flow (edges g ! x) + (if x \<in> set w then ?b else 0)
                   - (if residual (edges g ! x) \<in> set w then ?b else 0))"
    proof (intro exI conjI)
      show "bfs_search g = Inr (vis, prev)" by fact
      show "pred_walk (edges g) prev (source g) (sink g) (a # p)" by fact
      show "aug_path g (source g) (rev (a # p)) (sink g)" by fact
      show "\<forall>p'. aug_path g (source g) p' (sink g) \<longrightarrow> length (a # p) \<le> length p'" by fact
      show "length (edges ?g') = length (edges g)" by fact
      show "\<forall>x < length (edges g).
               capacity (edges ?g' ! x) = capacity (edges g ! x) \<and>
               from_node (edges ?g' ! x) = from_node (edges g ! x) \<and>
               to_node (edges ?g' ! x) = to_node (edges g ! x) \<and>
               residual (edges ?g' ! x) = residual (edges g ! x) \<and>
               flow (edges ?g' ! x) =
                 flow (edges g ! x) + (if x \<in> set (a # p) then ?b else 0)
                   - (if residual (edges g ! x) \<in> set (a # p) then ?b else 0)" by fact
    qed simp_all
    have "\<exists>b g'. bfs g = Some (Inr b, g') \<and> 0 \<le> b"
      using augmented(6) pos by simp
    moreover have "(\<forall>p. \<not> aug_path g (source g) p (sink g)) \<longrightarrow> bfs g = Some (Inr 0, g)"
      using augmented(4) by blast
    moreover have "(\<exists>p. aug_path g (source g) p (sink g)) \<longrightarrow>
        (\<exists>b g'. bfs g = Some (Inr b, g') \<and> 0 < b)"
      using augmented(6) pos by simp
    moreover have "\<forall>b g'. bfs g = Some (Inr b, g') \<longrightarrow> 0 < b \<longrightarrow>
        (\<exists>vis prev p. bfs_search g = Inr (vis, prev) \<and>
            pred_walk (edges g) prev (source g) (sink g) p \<and>
            aug_path g (source g) (rev p) (sink g) \<and>
            (\<forall>p'. aug_path g (source g) p' (sink g) \<longrightarrow> length p \<le> length p') \<and>
            b = bottleneck_of g p \<and>
            g' = g\<lparr>edges := push_path (edges g) p b\<rparr> \<and>
            num_nodes g' = num_nodes g \<and> source g' = source g \<and> sink g' = sink g \<and>
            graph g' = graph g \<and> length (edges g') = length (edges g) \<and>
            (\<forall>x < length (edges g).
               capacity (edges g' ! x) = capacity (edges g ! x) \<and>
               from_node (edges g' ! x) = from_node (edges g ! x) \<and>
               to_node (edges g' ! x) = to_node (edges g ! x) \<and>
               residual (edges g' ! x) = residual (edges g ! x) \<and>
               flow (edges g' ! x) =
                 flow (edges g ! x) + (if x \<in> set p then b else 0)
                   - (if residual (edges g ! x) \<in> set p then b else 0)))"
    proof (intro allI impI)
      fix b g' assume "bfs g = Some (Inr b, g')" "0 < b"
      with augmented(6) have "b = ?b" "g' = ?g'" by simp_all
      with found show "\<exists>vis prev p. bfs_search g = Inr (vis, prev) \<and>
            pred_walk (edges g) prev (source g) (sink g) p \<and>
            aug_path g (source g) (rev p) (sink g) \<and>
            (\<forall>p'. aug_path g (source g) p' (sink g) \<longrightarrow> length p \<le> length p') \<and>
            b = bottleneck_of g p \<and>
            g' = g\<lparr>edges := push_path (edges g) p b\<rparr> \<and>
            num_nodes g' = num_nodes g \<and> source g' = source g \<and> sink g' = sink g \<and>
            graph g' = graph g \<and> length (edges g') = length (edges g) \<and>
            (\<forall>x < length (edges g).
               capacity (edges g' ! x) = capacity (edges g ! x) \<and>
               from_node (edges g' ! x) = from_node (edges g ! x) \<and>
               to_node (edges g' ! x) = to_node (edges g ! x) \<and>
               residual (edges g' ! x) = residual (edges g ! x) \<and>
               flow (edges g' ! x) =
                 flow (edges g ! x) + (if x \<in> set p then b else 0)
                   - (if residual (edges g ! x) \<in> set p then b else 0))"
        by (simp only:)
    qed
    ultimately show ?thesis by blast
  qed
qed

theorem C8_witness:
  "valid_network 10 1 10 network1 \<and>
   (\<exists>b g'. bfs network1_graph = Some (Inr b, g') \<and> 0 < b) \<and>
   (\<exists>g' vis prev p. bfs network1_graph = Some (Inr 5, g') \<and>
      bfs_search network1_graph = Inr (vis, prev) \<and>
      pred_walk (edges network1_graph) prev (source network1_graph) (sink network1_graph) p \<and>
      aug_path network1_graph (source network1_graph) (rev p) (sink network1_graph) \<and>
      length p \<le> 4 \<and>
      5 = bottleneck_of network1_graph p \<and>
      flow (forward_edge g' 0) = 5 \<and> flow (residual_edge g' 0) = - 5 \<and>
      flow (forward_edge g' 1) = 0)"
proof -
  note c8 = C8_bfs_shortest_path [OF network1_valid network1_build solving.start]
  from c8 have some: "(\<exists>p. aug_path network1_graph (source network1_graph) p (sink network1_graph))
      \<longrightarrow> (\<exists>b g'. bfs network1_graph = Some (Inr b, g') \<and> 0 < b)"
    by (rule conjunct2 [THEN conjunct2, THEN conjunct1])
  from some network1_path have pos: "\<exists>b g'. bfs network1_graph = Some (Inr b, g') \<and> 0 < b"
    by blast
  from network1_first_bfs obtain g' where
    r: "bfs network1_graph = Some (Inr 5, g')"
    and fl: "flow (forward_edge g' 0) = 5" "flow (residual_edge g' 0) = - 5"
      "flow (forward_edge g' 1) = 0"
    by auto
  from c8 [THEN conjunct2, THEN conjunct2, THEN conjunct2, rule_format, OF r]
  obtain vis prev p where
    w: "bfs_search network1_graph = Inr (vis, prev)"
    "pred_walk (edges network1_graph) prev (source network1_graph) (sink network1_graph) p"
    "aug_path network1_graph (source network1_graph) (rev p) (sink network1_graph)"
    "5 = bottleneck_of network1_graph p"
    and sh: "\<forall>p'. aug_path network1_graph (source network1_graph) p' (sink network1_graph)
        \<longrightarrow> length p \<le> length p'"
    by auto
  from sh network1_path have "length p \<le> length [0, 4, 12, 22 :: nat]" by blast
  then have "length p \<le> 4" by simp
  with network1_valid pos r w fl show ?thesis by blast
qed

text \<open>
  Claim C9. When \<^verbatim>\<open>edmonds_karp\<close> has returned on a valid network, at every node other
  than the source and the sink the flow on the forward edges into the node is the flow
  on the forward edges out of it.
\<close>

theorem C9_flow_conservation:
  assumes "valid_network n s t es" and "build n s t es = (Inr (), g0)"
  shows "\<exists>v g'. edmonds_karp g0 = Some (Inr v, g') \<and>
     (\<forall>x. x \<noteq> source g' \<longrightarrow> x \<noteq> sink g' \<longrightarrow> flow_in g' x = flow_out g' x)"
proof -
  note b = valid_build [OF assms]
  from edmonds_karp_total [OF b(2)] obtain v g' where
    r: "edmonds_karp g0 = Some (Inr v, g')" and wf: "wf_graph g'"
    and sn: "same_network g0 g'"
    and net: "\<forall>x. net_flow (edges g') x =
        net_flow (edges g0) x + (if x = source g0 then v else 0) - (if x = sink g0 then v else 0)"
    by blast
  from sn have st: "source g' = source g0" "sink g' = sink g0" by (simp_all add: same_network_def)
  have "flow_in g' x = flow_out g' x" if "x \<noteq> source g'" "x \<noteq> sink g'" for x
  proof -
    from net that have "net_flow (edges g') x = 0"
      by (simp add: st built_net_flow_zero [OF b(1)])
    then show ?thesis by (simp add: net_flow_split [OF wf])
  qed
  with r show ?thesis by blast
qed

theorem C9_witness:
  "valid_network 10 1 10 network1 \<and>
   (\<exists>v g'. edmonds_karp network1_graph = Some (Inr v, g') \<and>
      flow_in g' 4 = flow_out g' 4)"
proof -
  have st: "source network1_graph = 0" "sink network1_graph = 9" by code_simp+
  from C9_flow_conservation [OF network1_valid network1_build] obtain v g' where
    r: "edmonds_karp network1_graph = Some (Inr v, g')"
    and c: "\<forall>x. x \<noteq> source g' \<longrightarrow> x \<noteq> sink g' \<longrightarrow> flow_in g' x = flow_out g' x"
    by blast
  from valid_build [OF network1_valid network1_build] have "wf_graph network1_graph" by simp
  from edmonds_karp_total [OF this] r have "same_network network1_graph g'" by auto
  with st have "source g' = 0" "sink g' = 9" by (simp_all add: same_network_def)
  with c have "flow_in g' 4 = flow_out g' 4" by simp
  with r network1_valid show ?thesis by blast
qed

text \<open>
  Claim C10. In every state of a valid network while it is solved, if no path from the
  source to the sink over edges with remaining capacity exists, then \<^verbatim>\<open>bfs\<close> returns
  0 and the network it leaves is the network it was given: no field of the graph or of
  an edge has changed.
\<close>

theorem C10_bfs_no_path_read_only:
  assumes "valid_network n s t es" and "build n s t es = (Inr (), g0)"
    and "solving g0 g" and "\<forall>p. \<not> aug_path g (source g) p (sink g)"
  shows "bfs g = Some (Inr 0, g)"
proof -
  note b = valid_build [OF assms(1,2)]
  from solving_wf [OF assms(3) b(2)] have wf: "wf_graph g" by simp
  from wf show ?thesis
  proof (cases rule: bfs_cases)
    case (no_path vis prev)
    then show ?thesis by simp
  next
    case (augmented vis prev a p)
    with assms(4) show ?thesis by blast
  qed
qed

theorem C10_witness:
  "valid_network 2 1 2 network_back \<and>
   bfs network_back_graph = Some (Inr 0, network_back_graph)"
  using C10_bfs_no_path_read_only
    [OF network_back_valid network_back_build solving.start network_back_no_path]
    network_back_valid
  by simp

end
